theory Spec2Isabelle
  imports Complex_Main "HOL-Library.Sublist"
begin

section \<open>Python text\<close>

text \<open>
  A Python \<^verbatim>\<open>str\<close> is modelled as a \<^typ>\<open>string\<close> whose characters are the code points
  below 256. \<^verbatim>\<open>str.strip\<close>, \<^verbatim>\<open>int\<close> and the pattern \<^verbatim>\<open>\s\<close> share one notion of
  white space (the interpreter's \<^verbatim>\<open>Py_UNICODE_ISSPACE\<close>); below 256 it is the twelve
  characters of \<open>whitespace_chars\<close>.
\<close>

abbreviation LF :: char where "LF \<equiv> CHR 0x0A"
abbreviation CR :: char where "CR \<equiv> CHR 0x0D"

definition whitespace_chars :: "char list" where
  "whitespace_chars =
     [CHR 0x09, CHR 0x0A, CHR 0x0B, CHR 0x0C, CHR 0x0D, CHR 0x1C, CHR 0x1D, CHR 0x1E,
      CHR 0x1F, CHR 0x20, CHR 0x85, CHR 0xA0]"

definition isspace :: "char \<Rightarrow> bool" where
  "isspace c = (c \<in> set whitespace_chars)"

text \<open>\<^verbatim>\<open>s.strip()\<close>\<close>

definition strip :: "string \<Rightarrow> string" where
  "strip s = rev (dropWhile isspace (rev (dropWhile isspace s)))"

text \<open>\<^verbatim>\<open>s.split(sep)\<close> for a separator of one character: never an empty list.\<close>

fun split_on :: "char \<Rightarrow> string \<Rightarrow> string list" where
  "split_on sep [] = [[]]"
| "split_on sep (c # cs) =
     (if c = sep then [] # split_on sep cs
      else (case split_on sep cs of [] \<Rightarrow> [[c]] | p # ps \<Rightarrow> (c # p) # ps))"

text \<open>\<^verbatim>\<open>s.endswith(suffix)\<close>\<close>

definition endswith :: "string \<Rightarrow> string \<Rightarrow> bool" where
  "endswith s sfx = suffix sfx s"

text \<open>\<^verbatim>\<open>s.replace(old, new)\<close>: every occurrence, left to right, without overlap.\<close>

fun replace_all :: "string \<Rightarrow> string \<Rightarrow> string \<Rightarrow> string" where
  "replace_all old new [] = (if old = [] then new else [])"
| "replace_all old new (c # cs) =
    (if old = [] then new @ c # replace_all old new cs
     else if prefix old (c # cs) then new @ replace_all old new (drop (length old - 1) cs)
     else c # replace_all old new cs)"

text \<open>
  \<^verbatim>\<open>int(s)\<close> on a string: white space around the literal is dropped, then an optional
  sign and decimal digits, single underscores allowed between digits. \<open>None\<close> is
  \<^verbatim>\<open>ValueError\<close>. A literal of more than \<open>max_str_digits\<close> digits (the interpreter's
  default limit, \<^verbatim>\<open>sys.int_info.default_max_str_digits\<close>; signs and underscores are not
  counted) is refused with \<^verbatim>\<open>ValueError\<close> as well.
\<close>

definition max_str_digits :: nat where
  "max_str_digits = 4300"

definition isdigit :: "char \<Rightarrow> bool" where
  "isdigit c = (c \<in> set ''0123456789'')"

definition digit_value :: "char \<Rightarrow> int" where
  "digit_value c = int (of_char c) - 48"

fun digits_tail :: "int \<Rightarrow> string \<Rightarrow> int option" where
  "digits_tail acc [] = Some acc"
| "digits_tail acc (c # cs) =
     (if isdigit c then digits_tail (10 * acc + digit_value c) cs
      else if c = CHR ''_'' then
        (case cs of
           [] \<Rightarrow> None
         | d # ds \<Rightarrow> if isdigit d then digits_tail (10 * acc + digit_value d) ds else None)
      else None)"

definition digit_string :: "string \<Rightarrow> int option" where
  "digit_string s =
     (case s of
        [] \<Rightarrow> None
      | c # cs \<Rightarrow> if isdigit c then digits_tail (digit_value c) cs else None)"

definition py_int :: "string \<Rightarrow> int option" where
  "py_int s =
     (if max_str_digits < length (filter isdigit (strip s)) then None
      else case strip s of
        [] \<Rightarrow> None
      | c # cs \<Rightarrow>
          if c = CHR ''-'' then map_option uminus (digit_string cs)
          else if c = CHR ''+'' then digit_string cs
          else digit_string (c # cs))"

text \<open>
  A file opened with \<^verbatim>\<open>open(path, 'r')\<close> is read with universal newlines: \<^verbatim>\<open>\r\n\<close> and a
  lone \<^verbatim>\<open>\r\<close> both arrive as \<^verbatim>\<open>\n\<close>. \<open>f_read\<close> is \<^verbatim>\<open>f.read()\<close> and \<open>readlines\<close> is
  \<^verbatim>\<open>f.readlines()\<close> (each line keeps its terminator), both on the decoded text of the
  file.
\<close>

fun universal_newlines :: "string \<Rightarrow> string" where
  "universal_newlines [] = []"
| "universal_newlines [c] = [if c = CR then LF else c]"
| "universal_newlines (c # d # cs) =
     (if c = CR \<and> d = LF then LF # universal_newlines cs
      else if c = CR then LF # universal_newlines (d # cs)
      else c # universal_newlines (d # cs))"

fun keepends :: "string \<Rightarrow> string list" where
  "keepends [] = []"
| "keepends (c # cs) =
     (if c = LF then [LF] # keepends cs
      else (case keepends cs of [] \<Rightarrow> [[c]] | l # ls \<Rightarrow> (c # l) # ls))"

definition f_read :: "string \<Rightarrow> string" where
  "f_read raw = universal_newlines raw"

definition readlines :: "string \<Rightarrow> string list" where
  "readlines raw = keepends (universal_newlines raw)"

text \<open>
  What a path holds: nothing; something that exists but cannot be opened (a directory, a
  file without read permission), where \<^verbatim>\<open>open\<close> raises an \<^verbatim>\<open>OSError\<close>; a file that
  opens but whose bytes do not decode, where reading raises \<^verbatim>\<open>UnicodeDecodeError\<close>; or
  text.
\<close>

datatype node = Missing | Unreadable | Undecodable | Text string

section \<open>Regular expressions of the validator\<close>

text \<open>
  The patterns of the validator use literals, \<^verbatim>\<open>\s\<close>, \<^verbatim>\<open>.\<close> (any character but the
  newline), alternation, sequence, \<^verbatim>\<open>*\<close>, \<^verbatim>\<open>+\<close> and \<^verbatim>\<open>?\<close>. \<open>matches\<close> is what it means
  for a whole string to match; \<open>re_search\<close> decides, by derivatives, whether some
  substring matches, which is when \<^verbatim>\<open>re.search\<close> returns a match object.
\<close>

datatype atom = Lit char | Whitespace | AnyChar

fun accepts :: "atom \<Rightarrow> char \<Rightarrow> bool" where
  "accepts (Lit a) c = (c = a)"
| "accepts Whitespace c = isspace c"
| "accepts AnyChar c = (c \<noteq> LF)"

datatype rexp = Fail | Eps | Sym atom | Alt rexp rexp | Seq rexp rexp | Star rexp

inductive matches :: "rexp \<Rightarrow> string \<Rightarrow> bool" where
  m_eps: "matches Eps []"
| m_sym: "accepts a c \<Longrightarrow> matches (Sym a) [c]"
| m_alt1: "matches r w \<Longrightarrow> matches (Alt r s) w"
| m_alt2: "matches s w \<Longrightarrow> matches (Alt r s) w"
| m_seq: "matches r u \<Longrightarrow> matches s v \<Longrightarrow> matches (Seq r s) (u @ v)"
| m_star0: "matches (Star r) []"
| m_star1: "matches r u \<Longrightarrow> matches (Star r) v \<Longrightarrow> matches (Star r) (u @ v)"

fun nullable :: "rexp \<Rightarrow> bool" where
  "nullable Fail = False"
| "nullable Eps = True"
| "nullable (Sym a) = False"
| "nullable (Alt r s) = (nullable r \<or> nullable s)"
| "nullable (Seq r s) = (nullable r \<and> nullable s)"
| "nullable (Star r) = True"

fun deriv :: "char \<Rightarrow> rexp \<Rightarrow> rexp" where
  "deriv c Fail = Fail"
| "deriv c Eps = Fail"
| "deriv c (Sym a) = (if accepts a c then Eps else Fail)"
| "deriv c (Alt r s) = Alt (deriv c r) (deriv c s)"
| "deriv c (Seq r s) =
     (if nullable r then Alt (Seq (deriv c r) s) (deriv c s) else Seq (deriv c r) s)"
| "deriv c (Star r) = Seq (deriv c r) (Star r)"

text \<open>\<open>match_here r s\<close>: some prefix of \<open>s\<close> matches \<open>r\<close>.\<close>

fun match_here :: "rexp \<Rightarrow> string \<Rightarrow> bool" where
  "match_here r [] = nullable r"
| "match_here r (c # cs) = (nullable r \<or> match_here (deriv c r) cs)"

text \<open>\<^verbatim>\<open>re.search(r, s) is not None\<close>: a match starting at some position of \<open>s\<close>.\<close>

fun re_search :: "rexp \<Rightarrow> string \<Rightarrow> bool" where
  "re_search r [] = nullable r"
| "re_search r (c # cs) = (match_here r (c # cs) \<or> re_search r cs)"

definition literal :: "string \<Rightarrow> rexp" where
  "literal s = foldr (\<lambda>c r. Seq (Sym (Lit c)) r) s Eps"

definition some :: "rexp \<Rightarrow> rexp" where
  "some r = Seq r (Star r)"

definition opt :: "rexp \<Rightarrow> rexp" where
  "opt r = Alt r Eps"

fun seqs :: "rexp list \<Rightarrow> rexp" where
  "seqs [] = Eps"
| "seqs (r # rs) = Seq r (seqs rs)"

text \<open>
  The validator splices the name into the pattern text. For a name of letters, digits
  and underscores (every name of the checklist is one) the spliced text is a literal,
  and that is the pattern embedded here.
\<close>

definition is_identifier :: "string \<Rightarrow> bool" where
  "is_identifier s =
     list_all (\<lambda>c. c \<in> set ''abcdefghijklmnopqrstuvwxyzABCDEFGHIJKLMNOPQRSTUVWXYZ0123456789_'') s"

text \<open>\<^verbatim>\<open>public\s+(?:partial\s+)?class\s+NAME\<close>\<close>

definition class_pattern :: "string \<Rightarrow> rexp" where
  "class_pattern class_name =
     seqs [literal ''public'', some (Sym Whitespace),
           opt (seqs [literal ''partial'', some (Sym Whitespace)]),
           literal ''class'', some (Sym Whitespace), literal class_name]"

text \<open>\<^verbatim>\<open>public\s+interface\s+NAME\<close>\<close>

definition interface_pattern :: "string \<Rightarrow> rexp" where
  "interface_pattern class_name =
     seqs [literal ''public'', some (Sym Whitespace), literal ''interface'',
           some (Sym Whitespace), literal class_name]"

text \<open>\<^verbatim>\<open>public\s+struct\s+NAME\<close>\<close>

definition struct_pattern :: "string \<Rightarrow> rexp" where
  "struct_pattern class_name =
     seqs [literal ''public'', some (Sym Whitespace), literal ''struct'',
           some (Sym Whitespace), literal class_name]"

text \<open>\<^verbatim>\<open>(?:public|private|protected)\s+.*\s+NAME\s*\(\<close>\<close>

definition method_pattern :: "string \<Rightarrow> rexp" where
  "method_pattern method_name =
     seqs [Alt (literal ''public'') (Alt (literal ''private'') (literal ''protected'')),
           some (Sym Whitespace), Star (Sym AnyChar), some (Sym Whitespace),
           literal method_name, Star (Sym Whitespace), Sym (Lit (CHR ''(''))]"

subsection \<open>Public declarations\<close>

text \<open>
  What the symbol check is said to look for, in words of strings rather than of
  patterns: \<open>blank\<close> is a run of one or more white space characters,
  \<open>public_declaration\<close> the text of a declaration of one of the three shapes, and
  \<open>declares_public\<close> says that such a text occurs somewhere in the content.
\<close>

definition blank :: "string \<Rightarrow> bool" where
  "blank w = (w \<noteq> [] \<and> list_all isspace w)"

definition public_declaration :: "string \<Rightarrow> string \<Rightarrow> bool" where
  "public_declaration class_name d =
     (\<exists>ws1 ws2. blank ws1 \<and> blank ws2 \<and>
        (d = ''public'' @ ws1 @ ''class'' @ ws2 @ class_name
         \<or> (\<exists>ws3. blank ws3 \<and> d = ''public'' @ ws1 @ ''partial'' @ ws3 @ ''class'' @ ws2 @ class_name)
         \<or> d = ''public'' @ ws1 @ ''interface'' @ ws2 @ class_name
         \<or> d = ''public'' @ ws1 @ ''struct'' @ ws2 @ class_name))"

definition declares_public :: "string \<Rightarrow> string \<Rightarrow> bool" where
  "declares_public class_name content = (\<exists>pre d post. content = pre @ d @ post \<and> public_declaration class_name d)"

section \<open>The combat systems validator\<close>

text \<open>
  The validator reads the file system and prints; its console output is not modelled,
  the values its functions return are. \<^verbatim>\<open>os.path.exists\<close> is true of whatever is there,
  readable or not; a failure of \<^verbatim>\<open>open\<close> or \<^verbatim>\<open>read\<close> (a node that is \<open>Unreadable\<close> or
  \<open>Undecodable\<close>) is caught by the \<^verbatim>\<open>except Exception\<close> of the check, which then
  returns \<^verbatim>\<open>False\<close>.
\<close>

type_synonym filesystem = "string \<Rightarrow> node"

definition path_exists :: "filesystem \<Rightarrow> string \<Rightarrow> bool" where
  "path_exists fs filepath = (fs filepath \<noteq> Missing)"

definition check_file_exists :: "filesystem \<Rightarrow> string \<Rightarrow> bool" where
  "check_file_exists fs filepath = (if path_exists fs filepath then True else False)"

definition check_class_definition :: "filesystem \<Rightarrow> string \<Rightarrow> string \<Rightarrow> bool" where
  "check_class_definition fs filepath class_name =
     (if \<not> path_exists fs filepath then False
      else case fs filepath of
        Text raw \<Rightarrow>
          (let content = f_read raw in
           if re_search (class_pattern class_name) content then True
           else if re_search (interface_pattern class_name) content then True
           else if re_search (struct_pattern class_name) content then True
           else False)
      | _ \<Rightarrow> False)"

definition check_method_exists :: "filesystem \<Rightarrow> string \<Rightarrow> string \<Rightarrow> bool" where
  "check_method_exists fs filepath method_name =
     (if \<not> path_exists fs filepath then False
      else case fs filepath of
        Text raw \<Rightarrow>
          (let content = f_read raw in
           if re_search (method_pattern method_name) content then True else False)
      | _ \<Rightarrow> False)"

definition core_files :: "(string \<times> string) list" where
  "core_files =
     [(''Scripts/Core/CombatSystem.cs'', ''CombatSystem''),
      (''Scripts/Core/ICombatSystem.cs'', ''ICombatSystem''),
      (''Scripts/Core/ProjectileManager.cs'', ''ProjectileManager''),
      (''Scripts/Core/InventorySystem.cs'', ''InventorySystem''),
      (''Scripts/Core/IInventorySystem.cs'', ''IInventorySystem''),
      (''Scripts/Core/MovementSystem.cs'', ''MovementSystem''),
      (''Scripts/Core/IMovementSystem.cs'', ''IMovementSystem''),
      (''Scripts/Core/InputManager.cs'', ''InputManager''),
      (''Scripts/Core/IInputManager.cs'', ''IInputManager''),
      (''Scripts/Core/MapSystem.cs'', ''MapSystem''),
      (''Scripts/Core/IMapSystem.cs'', ''IMapSystem'')]"

definition test_files :: "(string \<times> string) list" where
  "test_files =
     [(''Scripts/Test/CombatSystemTest.cs'', ''CombatSystemTest''),
      (''Scripts/Test/ProjectileSystemTest.cs'', ''ProjectileSystemTest''),
      (''Scripts/Test/MovementSystemTest.cs'', ''MovementSystemTest''),
      (''Scripts/Test/InputManagerTest.cs'', ''InputManagerTest''),
      (''Scripts/Test/MapSystemTest.cs'', ''MapSystemTest'')]"

definition data_files :: "(string \<times> string) list" where
  "data_files =
     [(''Scripts/Data/PlayerData.cs'', ''PlayerData''),
      (''Scripts/Data/CombatData.cs'', ''WeaponData''),
      (''Scripts/Data/MapData.cs'', ''MapData''),
      (''Scripts/Data/EnemyData.cs'', ''EnemyData'')]"

definition network_files :: "(string \<times> string) list" where
  "network_files =
     [(''Scripts/Network/SpacetimeDBClient.cs'', ''SpacetimeDBClient''),
      (''Scripts/GameManager.cs'', ''GameManager'')]"

definition combat_methods :: "string list" where
  "combat_methods =
     [''ExecuteAttack'', ''ProcessHit'', ''CreateProjectile'', ''IsPlayerAttacking'',
      ''GetEquippedWeapon'']"

definition projectile_methods :: "string list" where
  "projectile_methods = [''CreateProjectile'', ''GetActiveProjectiles'', ''GetProjectileConfig'']"

text \<open>
  The six loops of \<^verbatim>\<open>main\<close>: a counter that starts at 0 and goes up by one for each entry
  that passes. In the four loops over files the symbol check is only reached when the
  existence check passed (\<^verbatim>\<open>and\<close> short-circuits).
\<close>

fun files_passed :: "filesystem \<Rightarrow> (string \<times> string) list \<Rightarrow> nat \<Rightarrow> nat" where
  "files_passed fs [] passed = passed"
| "files_passed fs ((filepath, class_name) # rest) passed =
     files_passed fs rest
       (if check_file_exists fs filepath \<and> check_class_definition fs filepath class_name
        then passed + 1 else passed)"

fun methods_passed :: "filesystem \<Rightarrow> string \<Rightarrow> string list \<Rightarrow> nat \<Rightarrow> nat" where
  "methods_passed fs filepath [] passed = passed"
| "methods_passed fs filepath (method # rest) passed =
     methods_passed fs filepath rest
       (if check_method_exists fs filepath method then passed + 1 else passed)"

subsection \<open>The threshold: binary64 arithmetic\<close>

text \<open>
  \<^verbatim>\<open>total_checks * 0.8\<close> is a product of floats. A float is held as an integer mantissa
  and a binary exponent, value \<open>mant * 2 ^ expo\<close>; an operation computes the exact
  result and rounds it to 53 bits, ties to even (overflow and subnormals are out of
  reach of the validator's numbers and are not modelled). Python compares an integer
  with a float by their exact values.
\<close>

record double =
  mant :: int
  expo :: int

fun bit_length :: "nat \<Rightarrow> nat" where
  "bit_length n = (if n = 0 then 0 else Suc (bit_length (n div 2)))"

declare bit_length.simps [simp del]

definition round_half_even :: "int \<Rightarrow> nat \<Rightarrow> int" where
  "round_half_even m k =
     (let q = m div 2 ^ k; r = m mod 2 ^ k
      in if 2 * r > 2 ^ k \<or> (2 * r = 2 ^ k \<and> odd q) then q + 1 else q)"

definition to_double :: "int \<Rightarrow> int \<Rightarrow> double" where
  "to_double m e =
     (let n = bit_length (nat \<bar>m\<bar>)
      in if n \<le> 53 then \<lparr>mant = m, expo = e\<rparr>
         else \<lparr>mant = round_half_even m (n - 53), expo = e + int (n - 53)\<rparr>)"

definition float_of_int :: "int \<Rightarrow> double" where
  "float_of_int n = to_double n 0"

definition fmul :: "double \<Rightarrow> double \<Rightarrow> double" where
  "fmul x y = to_double (mant x * mant y) (expo x + expo y)"

text \<open>The literal \<^verbatim>\<open>0.8\<close>: the binary64 number nearest to 4/5, \<^verbatim>\<open>0x1.999999999999ap-1\<close>.\<close>

definition double_0_8 :: double where
  "double_0_8 = \<lparr>mant = 7205759403792794, expo = - 53\<rparr>"

text \<open>\<^verbatim>\<open>n >= x\<close> for an integer \<open>n\<close> and a float \<open>x\<close>.\<close>

definition int_ge_float :: "int \<Rightarrow> double \<Rightarrow> bool" where
  "int_ge_float n x =
     (if 0 \<le> expo x then mant x * 2 ^ nat (expo x) \<le> n
      else mant x \<le> n * 2 ^ nat (- expo x))"

subsection \<open>\<^verbatim>\<open>main\<close> and the exit code\<close>

definition total_passed :: "filesystem \<Rightarrow> nat" where
  "total_passed fs =
     (let core_passed = files_passed fs core_files 0;
          test_passed = files_passed fs test_files 0;
          data_passed = files_passed fs data_files 0;
          network_passed = files_passed fs network_files 0;
          combat_methods_passed =
            methods_passed fs ''Scripts/Core/CombatSystem.cs'' combat_methods 0;
          projectile_methods_passed =
            methods_passed fs ''Scripts/Core/ProjectileManager.cs'' projectile_methods 0
      in core_passed + test_passed + data_passed + network_passed + combat_methods_passed
         + projectile_methods_passed)"

definition total_checks :: nat where
  "total_checks =
     length core_files + length test_files + length data_files + length network_files
     + length combat_methods + length projectile_methods"

definition main :: "filesystem \<Rightarrow> bool" where
  "main fs =
     (if int_ge_float (int (total_passed fs)) (fmul (float_of_int (int total_checks)) double_0_8)
      then True else False)"

definition exit_code :: "filesystem \<Rightarrow> int" where
  "exit_code fs = (let success = main fs in if success then 0 else 1)"

section \<open>The map deploy script\<close>

subsection \<open>\<^verbatim>\<open>json.dumps\<close>\<close>

text \<open>
  The Python values the script serialises: integers, strings, lists and dictionaries
  (a dictionary keeps its keys in insertion order). \<open>json_dumps\<close> is \<^verbatim>\<open>json.dumps\<close> with
  its default arguments: items separated by a comma and a space, keys by a colon and a
  space, and every character outside the printable ASCII range escaped.
\<close>

datatype pyobj = PInt int | PStr string | PList "pyobj list" | PDict "(string \<times> pyobj) list"

fun nat_repr :: "nat \<Rightarrow> string" where
  "nat_repr n =
     (if n < 10 then [''0123456789'' ! n]
      else nat_repr (n div 10) @ [''0123456789'' ! (n mod 10)])"

declare nat_repr.simps [simp del]

definition int_repr :: "int \<Rightarrow> string" where
  "int_repr i = (if i < 0 then CHR ''-'' # nat_repr (nat (- i)) else nat_repr (nat i))"

definition json_char :: "char \<Rightarrow> string" where
  "json_char c =
     (if c = CHR 0x22 then [CHR 0x5C, CHR 0x22]
      else if c = CHR 0x5C then [CHR 0x5C, CHR 0x5C]
      else if c = CHR 0x0A then [CHR 0x5C, CHR ''n'']
      else if c = CHR 0x0D then [CHR 0x5C, CHR ''r'']
      else if c = CHR 0x09 then [CHR 0x5C, CHR ''t'']
      else if c = CHR 0x08 then [CHR 0x5C, CHR ''b'']
      else if c = CHR 0x0C then [CHR 0x5C, CHR ''f'']
      else if (of_char c :: nat) < 32 \<or> 126 < (of_char c :: nat) then
        [CHR 0x5C, CHR ''u'', CHR ''0'', CHR ''0'',
         ''0123456789abcdef'' ! (of_char c div 16), ''0123456789abcdef'' ! (of_char c mod 16)]
      else [c])"

definition json_str :: "string \<Rightarrow> string" where
  "json_str s = CHR 0x22 # concat (map json_char s) @ [CHR 0x22]"

text \<open>\<^verbatim>\<open>sep.join(items)\<close>\<close>

fun join :: "string \<Rightarrow> string list \<Rightarrow> string" where
  "join sep [] = []"
| "join sep [x] = x"
| "join sep (x # y # ys) = x @ sep @ join sep (y # ys)"

fun json_dumps :: "pyobj \<Rightarrow> string" where
  "json_dumps (PInt i) = int_repr i"
| "json_dumps (PStr s) = json_str s"
| "json_dumps (PList xs) = ''['' @ join '', '' (map json_dumps xs) @ '']''"
| "json_dumps (PDict kvs) =
     ''{'' @ join '', '' (map (\<lambda>(k, v). json_str k @ '': '' @ json_dumps v) kvs) @ ''}''"

subsection \<open>The environment\<close>

definition SERVER_URL :: string where
  "SERVER_URL = ''http://localhost:7734''"

definition MAPS_DIR :: string where
  "MAPS_DIR = ''src/maps''"

definition DB_IDENTITY :: string where
  "DB_IDENTITY = ''guildmaster''"

text \<open>
  What \<^verbatim>\<open>subprocess.run\<close> does with a command: the program ran and exited with a return
  code, its standard output and its standard error, or it could not be started and
  \<^verbatim>\<open>subprocess.run\<close> raises.
\<close>

datatype completed = Exited int string string | NotStarted

text \<open>
  The world of one run: what \<^verbatim>\<open>os.listdir(MAPS_DIR)\<close> returns, each name with what
  \<^verbatim>\<open>open\<close> finds under it (\<open>None\<close> when the directory cannot be listed), and the external
  client.
\<close>

record world =
  maps_dir :: "(string \<times> node) list option"
  spacetime :: "string list \<Rightarrow> completed"

text \<open>The uncaught exceptions of a run, and what a run does that can be observed.\<close>

datatype error = OSError string | UnicodeDecodeError string | ValueError string

datatype event =
    Print_no_maps
  | Print_sending nat
  | Run "string list"
  | Print_success
  | Print_failure string

subsection \<open>Reading a map file\<close>

text \<open>\<^verbatim>\<open>[l.strip() for l in f.readlines() if l.strip()]\<close>\<close>

definition stripped_lines :: "string \<Rightarrow> string list" where
  "stripped_lines raw = map strip (filter (\<lambda>l. strip l \<noteq> []) (readlines raw))"

text \<open>\<^verbatim>\<open>[int(t.strip()) for t in tokens if t.strip()]\<close>: the first token that is not an
  integer literal raises.\<close>

fun int_tokens :: "string list \<Rightarrow> error + int list" where
  "int_tokens [] = Inr []"
| "int_tokens (t # ts) =
     (if strip t = [] then int_tokens ts
      else case py_int (strip t) of
        None \<Rightarrow> Inl (ValueError (strip t))
      | Some v \<Rightarrow> (case int_tokens ts of Inl e \<Rightarrow> Inl e | Inr vs \<Rightarrow> Inr (v # vs)))"

text \<open>The loop \<^verbatim>\<open>for line in lines: tile_data.extend(...)\<close>.\<close>

fun flatten_lines :: "string list \<Rightarrow> int list \<Rightarrow> error + int list" where
  "flatten_lines [] tile_data = Inr tile_data"
| "flatten_lines (line # rest) tile_data =
     (case int_tokens (split_on (CHR '','') line) of
        Inl e \<Rightarrow> Inl e
      | Inr vs \<Rightarrow> flatten_lines rest (tile_data @ vs))"

subsection \<open>Templates\<close>

record template =
  name :: string
  width :: nat
  height :: nat
  tile_data :: "int list"

definition template_obj :: "template \<Rightarrow> pyobj" where
  "template_obj t =
     PDict [(''name'', PStr (name t)), (''width'', PInt (int (width t))),
            (''height'', PInt (int (height t))), (''tile_data'', PList (map PInt (tile_data t)))]"

text \<open>The body of the loop over file names, for a file that opened: \<open>Inr None\<close> is
  \<^verbatim>\<open>continue\<close>, \<open>Inr (Some t)\<close> the template appended.\<close>

definition load_template :: "string \<Rightarrow> string \<Rightarrow> error + template option" where
  "load_template filename raw =
     (let template_name = replace_all ''.csv'' [] filename;
          lines = stripped_lines raw
      in if lines = [] then Inr None
         else let height = length lines;
                  width = length (split_on (CHR '','') (hd lines))
              in case flatten_lines lines [] of
                   Inl e \<Rightarrow> Inl e
                 | Inr tiles \<Rightarrow>
                     Inr (Some \<lparr>name = template_name, width = width, height = height,
                                tile_data = tiles\<rparr>))"

text \<open>The loop over \<^verbatim>\<open>os.listdir(MAPS_DIR)\<close>; a name that does not end in \<^verbatim>\<open>.csv\<close> is
  not opened. A name that cannot be opened (or is gone by then) raises an \<^verbatim>\<open>OSError\<close>
  at \<^verbatim>\<open>open\<close>, bytes that do not decode raise \<^verbatim>\<open>UnicodeDecodeError\<close> at
  \<^verbatim>\<open>readlines\<close>.\<close>

fun scan_maps :: "(string \<times> node) list \<Rightarrow> template list \<Rightarrow> error + template list" where
  "scan_maps [] all_templates = Inr all_templates"
| "scan_maps ((filename, nd) # rest) all_templates =
     (if endswith filename ''.csv'' then
        (case nd of
           Text raw \<Rightarrow>
             (case load_template filename raw of
                Inl e \<Rightarrow> Inl e
              | Inr None \<Rightarrow> scan_maps rest all_templates
              | Inr (Some t) \<Rightarrow> scan_maps rest (all_templates @ [t]))
         | Undecodable \<Rightarrow> Inl (UnicodeDecodeError filename)
         | _ \<Rightarrow> Inl (OSError filename))
      else scan_maps rest all_templates)"

definition deploy_command :: "template list \<Rightarrow> string list" where
  "deploy_command all_templates =
     (let args = PList [PList (map template_obj all_templates)]
      in [''spacetime'', ''call'', ''-s'', SERVER_URL, DB_IDENTITY, ''replace_all_templates'',
          json_dumps args])"

text \<open>One run: the events in order, and the exception that ended it, if one did.\<close>

definition run_deploy :: "world \<Rightarrow> event list \<times> error option" where
  "run_deploy w =
     (case maps_dir w of
        None \<Rightarrow> ([], Some (OSError MAPS_DIR))
      | Some listing \<Rightarrow>
          (case scan_maps listing [] of
             Inl e \<Rightarrow> ([], Some e)
           | Inr all_templates \<Rightarrow>
               if all_templates = [] then ([Print_no_maps], None)
               else
                 (let cmd = deploy_command all_templates
                  in case spacetime w cmd of
                       NotStarted \<Rightarrow>
                         ([Print_sending (length all_templates), Run cmd],
                          Some (OSError ''spacetime''))
                     | Exited returncode out err \<Rightarrow>
                         ([Print_sending (length all_templates), Run cmd,
                           if returncode = 0 then Print_success else Print_failure err],
                          None))))"

fun is_run :: "event \<Rightarrow> bool" where
  "is_run (Run cmd) = True"
| "is_run _ = False"

subsection \<open>Rectangular files\<close>

text \<open>
  A file is rectangular when every one of its non-blank lines holds as many non-blank
  comma-separated tokens as the first non-blank line has comma-separated fields. The
  script does not check it.
\<close>

definition rectangular :: "string \<Rightarrow> bool" where
  "rectangular raw =
     (let lines = stripped_lines raw
      in list_all (\<lambda>l. length (filter (\<lambda>t. strip t \<noteq> []) (split_on (CHR '','') l))
                         = length (split_on (CHR '','') (hd lines))) lines)"

subsection \<open>Files made of rows of integer tokens\<close>

text \<open>
  An integer token is an optional sign and one or more decimal digits, no more of them
  than \<^verbatim>\<open>int\<close> takes, and \<open>literal_value\<close> is the integer it denotes. \<open>csv_text rows\<close> is the text of the file
  whose rows are the given tokens: the tokens of a row separated by commas, each row
  ended by a newline.
\<close>

definition decimal :: "string \<Rightarrow> int" where
  "decimal ds = foldl (\<lambda>a d. 10 * a + digit_value d) 0 ds"

definition int_literal :: "string \<Rightarrow> bool" where
  "int_literal t =
     (case t of
        [] \<Rightarrow> False
      | c # cs \<Rightarrow>
          if c = CHR ''-'' \<or> c = CHR ''+''
          then cs \<noteq> [] \<and> list_all isdigit cs \<and> length cs \<le> max_str_digits
          else list_all isdigit (c # cs) \<and> length (c # cs) \<le> max_str_digits)"

definition literal_value :: "string \<Rightarrow> int" where
  "literal_value t =
     (case t of
        [] \<Rightarrow> 0
      | c # cs \<Rightarrow>
          if c = CHR ''-'' then - decimal cs
          else if c = CHR ''+'' then decimal cs
          else decimal (c # cs))"

definition csv_text :: "string list list \<Rightarrow> string" where
  "csv_text rows = concat (map (\<lambda>row. join '','' row @ [LF]) rows)"

text \<open>
  The rows of a file, for any text: its non-blank lines in order, each cut at its commas,
  each token without the white space around it.
\<close>

definition csv_rows :: "string \<Rightarrow> string list list" where
  "csv_rows raw = map (\<lambda>l. map strip (split_on (CHR '','') l)) (stripped_lines raw)"

section \<open>Example inputs\<close>

text \<open>A project tree that holds one of the four data files and nothing else.\<close>

definition one_file :: filesystem where
  "one_file p =
     (if p = ''Scripts/Data/MapData.cs'' then Text ''public class MapData'' else Missing)"

text \<open>Map files: two rows of two tiles; a second row shorter than the first; a token
  that is no integer; white space only.\<close>

definition square_csv :: string where
  "square_csv = ''1,2'' @ [LF] @ ''3,4'' @ [LF]"

definition ragged_csv :: string where
  "ragged_csv = ''1,2'' @ [LF] @ ''3'' @ [LF]"

definition bad_csv :: string where
  "bad_csv = ''1,x'' @ [LF]"

definition blank_csv :: string where
  "blank_csv = '' '' @ [LF] @ [CHR 0x09] @ [LF]"

definition square_template :: template where
  "square_template = \<lparr>name = ''m'', width = 2, height = 2, tile_data = [1, 2, 3, 4]\<rparr>"

definition ragged_template :: template where
  "ragged_template = \<lparr>name = ''r'', width = 2, height = 2, tile_data = [1, 2, 3]\<rparr>"

text \<open>A client that accepts the call, and one that refuses it.\<close>

definition accepting :: "string list \<Rightarrow> completed" where
  "accepting cmd = Exited 0 [] []"

definition refusing :: "string list \<Rightarrow> completed" where
  "refusing cmd = Exited 1 [] ''connection refused''"

definition square_world :: world where
  "square_world =
     \<lparr>maps_dir = Some [(''notes.txt'', Unreadable), (''m.csv'', Text square_csv)],
      spacetime = refusing\<rparr>"

definition ragged_world :: world where
  "ragged_world = \<lparr>maps_dir = Some [(''r.csv'', Text ragged_csv)], spacetime = accepting\<rparr>"

definition bad_world :: world where
  "bad_world = \<lparr>maps_dir = Some [(''m.csv'', Text bad_csv)], spacetime = accepting\<rparr>"

definition idle_world :: world where
  "idle_world =
     \<lparr>maps_dir = Some [(''readme.md'', Text ''maps''), (''blank.csv'', Text blank_csv)],
      spacetime = accepting\<rparr>"

definition empty_world :: world where
  "empty_world = \<lparr>maps_dir = Some [], spacetime = accepting\<rparr>"

text \<open>A directory whose one map file cannot be opened.\<close>

definition locked_world :: world where
  "locked_world = \<lparr>maps_dir = Some [(''locked.csv'', Unreadable)], spacetime = accepting\<rparr>"

text \<open>Two rows of three tokens, with signs, a leading zero and more than one digit.\<close>

definition wide_rows :: "string list list" where
  "wide_rows = [[''10'', ''-2'', ''+7''], [''3'', ''04'', ''5'']]"

text \<open>The same rows in a file with padded tokens, a line ended by carriage return and
  newline, an empty line, a line of spaces, and no newline at its end.\<close>

definition wide_csv :: string where
  "wide_csv =
     '' 10 , -2,+7 '' @ [CR, LF] @ [CR, LF] @ ''   '' @ [LF] @ ''3,04 ,5''"

text \<open>A source file that declares \<^verbatim>\<open>MapData\<close> without the public modifier, next to
  a public class whose name begins with the same characters, and the file without that
  second class.\<close>

definition shadowed :: filesystem where
  "shadowed p =
     (if p = ''Scripts/Data/MapData.cs''
      then Text ''internal class MapData { } public class MapDataView { }''
      else if p = ''Scripts/Data/Internal.cs'' then Text ''internal class MapData { }''
      else Missing)"

text \<open>Source files that declare \<^verbatim>\<open>MapData\<close> in several ways.\<close>

definition sources :: filesystem where
  "sources p =
     (if p = ''A.cs'' then Text (''public partial class MapData'' @ [CR, LF] @ ''{ }'')
      else if p = ''B.cs'' then Text ''internal class MapData { }''
      else if p = ''C.cs'' then Text ''class MapData { }''
      else if p = ''D.cs'' then Text ''public  struct MapData''
      else if p = ''E.cs'' then Text ''public abstract class MapData''
      else if p = ''F.cs'' then Unreadable
      else Missing)"

section \<open>The validator's threshold and exit code\<close>

lemma bit_length_bounds:
  "2 ^ k \<le> n \<Longrightarrow> n < 2 ^ Suc k \<Longrightarrow> bit_length n = Suc k"
proof (induction k arbitrary: n)
  case 0
  then have "n = Suc 0" by simp
  then show ?case by (simp add: bit_length.simps [of "Suc 0"] bit_length.simps [of 0])
next
  case (Suc k)
  have "2 ^ k \<le> n div 2" using Suc.prems(1) by simp
  moreover have "n div 2 < 2 ^ Suc k" using Suc.prems(2) by simp
  ultimately have "bit_length (n div 2) = Suc k" by (rule Suc.IH)
  moreover have "(0::nat) < 2 ^ Suc k" by simp
  then have "n \<noteq> 0" using Suc.prems(1) by linarith
  ultimately show ?case by (simp add: bit_length.simps [of n])
qed

lemma total_checks_30: "total_checks = 30"
  by (simp add: total_checks_def core_files_def test_files_def data_files_def
      network_files_def combat_methods_def projectile_methods_def)

lemma float_of_int_30: "float_of_int 30 = \<lparr>mant = 30, expo = 0\<rparr>"
proof -
  have "bit_length 30 = Suc 4" by (rule bit_length_bounds) simp_all
  then show ?thesis by (simp add: float_of_int_def to_double_def)
qed

text \<open>The literal really is the binary64 number nearest to 4/5: it lies within half a
  unit in the last place, \<open>2 ^ 54\<close> to the minus one, of it.\<close>

lemma double_0_8_nearest:
  "2 ^ 52 \<le> mant double_0_8 \<and> mant double_0_8 < 2 ^ 53 \<and> expo double_0_8 = - 53
   \<and> \<bar>real_of_int (mant double_0_8) / 2 ^ 53 - 4 / 5\<bar> \<le> 1 / 2 ^ 54"
  by (simp add: double_0_8_def)

text \<open>\<^verbatim>\<open>30 * 0.8\<close> is the float 24.0 exactly: the product 24 + 6 / 2 ^ 52 rounds down.\<close>

lemma threshold_24:
  "fmul (float_of_int 30) double_0_8 = \<lparr>mant = 6755399441055744, expo = - 48\<rparr>"
proof -
  have "bit_length 216172782113783820 = Suc 57" by (rule bit_length_bounds) simp_all
  then show ?thesis
    by (simp add: float_of_int_30 fmul_def double_0_8_def to_double_def round_half_even_def)
qed

lemma passes_threshold:
  "int_ge_float (int n) (fmul (float_of_int (int total_checks)) double_0_8) = (24 \<le> n)"
  by (simp add: total_checks_30 threshold_24 int_ge_float_def)

lemma main_iff: "main fs \<longleftrightarrow> 24 \<le> total_passed fs"
  by (simp add: main_def passes_threshold)

text \<open>
  C1. The exit code of the validator is 0 exactly when passed checks divided by total
  checks is at least 0.8, and 1 otherwise; the quotient is taken in the reals. The
  boundary, 24 of 30, is on the side of exit code 0.
\<close>

theorem exit_code_threshold:
  "exit_code fs =
     (if (4 / 5 :: real) \<le> real (total_passed fs) / real total_checks then 0 else 1)"
proof -
  have "((4 / 5 :: real) \<le> real (total_passed fs) / real total_checks) = (24 \<le> total_passed fs)"
    by (simp add: total_checks_30 field_simps)
  then show ?thesis
    by (simp add: exit_code_def main_iff)
qed

section \<open>Missing files\<close>

lemma files_passed_missing:
  "fs filepath = Missing \<Longrightarrow>
   files_passed fs (before @ (filepath, class_name) # rest) n = files_passed fs (before @ rest) n"
  by (induction before arbitrary: n) (auto simp: check_file_exists_def path_exists_def)

lemma methods_passed_missing:
  "fs filepath = Missing \<Longrightarrow> methods_passed fs filepath methods n = n"
  by (induction methods arbitrary: n) (auto simp: check_method_exists_def path_exists_def)

lemma files_passed_count:
  "files_passed fs entries n
     = n + length (filter (\<lambda>(p, c). check_file_exists fs p \<and> check_class_definition fs p c)
                     entries)"
proof (induction entries arbitrary: n)
  case Nil
  show ?case by simp
next
  case (Cons x entries)
  obtain p c where x: "x = (p, c)" by (cases x)
  show ?case unfolding x by (simp add: Cons.IH)
qed

lemma methods_passed_count:
  "methods_passed fs filepath methods n
     = n + length (filter (check_method_exists fs filepath) methods)"
proof (induction methods arbitrary: n)
  case Nil
  show ?case by simp
next
  case (Cons m methods)
  show ?case by (simp add: Cons.IH)
qed

lemma total_passed_count:
  "total_passed fs
     = length (filter (\<lambda>(p, c). check_file_exists fs p \<and> check_class_definition fs p c)
                (core_files @ test_files @ data_files @ network_files))
       + length (filter (check_method_exists fs ''Scripts/Core/CombatSystem.cs'') combat_methods)
       + length (filter (check_method_exists fs ''Scripts/Core/ProjectileManager.cs'')
                   projectile_methods)"
  by (simp add: total_passed_def files_passed_count methods_passed_count)

text \<open>
  C6. For a path that is missing, the existence check, the symbol check and the method
  check all return false. The loop over a checklist goes on past such an entry: the
  entries before and after it count as they would without it, and the method loop over
  a missing file leaves its counter where it was. The whole run goes through all its
  checks whatever is missing: the number it reports as passed is the number of entries,
  among the 22 of the four file lists and the 8 of the two method lists, whose check
  passes; the number of checks is 30 for every file system; and the run ends with the
  threshold decision and its exit code.
\<close>

theorem missing_file_fails:
  assumes "fs filepath = Missing"
  shows "\<not> check_file_exists fs filepath
       \<and> \<not> check_class_definition fs filepath class_name
       \<and> \<not> check_method_exists fs filepath method_name
       \<and> files_passed fs (before @ (filepath, class_name) # rest) n
           = files_passed fs (before @ rest) n
       \<and> methods_passed fs filepath methods n = n
       \<and> total_checks = 30
       \<and> total_passed fs
           = length (filter (\<lambda>(p, c). check_file_exists fs p \<and> check_class_definition fs p c)
                      (core_files @ test_files @ data_files @ network_files))
             + length (filter (check_method_exists fs ''Scripts/Core/CombatSystem.cs'')
                         combat_methods)
             + length (filter (check_method_exists fs ''Scripts/Core/ProjectileManager.cs'')
                         projectile_methods)
       \<and> length (core_files @ test_files @ data_files @ network_files)
             + length combat_methods + length projectile_methods = total_checks
       \<and> main fs = (24 \<le> total_passed fs)
       \<and> exit_code fs = (if main fs then 0 else 1)"
proof -
  have checks: "\<not> check_file_exists fs filepath"
    "\<not> check_class_definition fs filepath class_name"
    "\<not> check_method_exists fs filepath method_name"
    using assms
    by (simp_all add: check_file_exists_def check_class_definition_def check_method_exists_def
        path_exists_def)
  have lists: "length (core_files @ test_files @ data_files @ network_files)
             + length combat_methods + length projectile_methods = total_checks"
    by (simp add: total_checks_def)
  have code: "exit_code fs = (if main fs then 0 else 1)"
    by (simp add: exit_code_def)
  show ?thesis
    using checks lists code total_checks_30 main_iff [of fs] total_passed_count [of fs]
      files_passed_missing [of fs filepath before class_name rest n, OF assms]
      methods_passed_missing [of fs filepath methods n, OF assms]
    by blast
qed

theorem missing_file_fails_witness:
  "one_file ''Scripts/Data/PlayerData.cs'' = Missing
   \<and> \<not> check_file_exists one_file ''Scripts/Data/PlayerData.cs''
   \<and> \<not> check_class_definition one_file ''Scripts/Data/PlayerData.cs'' ''PlayerData''
   \<and> \<not> check_method_exists one_file ''Scripts/Data/PlayerData.cs'' ''ExecuteAttack''
   \<and> files_passed one_file data_files 0 = files_passed one_file (tl data_files) 0
   \<and> files_passed one_file (tl data_files) 0 = 1
   \<and> methods_passed one_file ''Scripts/Data/PlayerData.cs'' combat_methods 0 = 0
   \<and> total_checks = 30
   \<and> total_passed one_file = 1
   \<and> \<not> main one_file
   \<and> exit_code one_file = 1"
proof -
  have missing: "one_file ''Scripts/Data/PlayerData.cs'' = Missing"
    by (simp add: one_file_def)
  have counted: "files_passed one_file (tl data_files) 0 = 1"
    by (simp add: data_files_def one_file_def check_file_exists_def path_exists_def
        check_class_definition_def f_read_def class_pattern_def literal_def some_def opt_def
        isspace_def whitespace_chars_def)
  have files: "length (filter (\<lambda>(p, c). check_file_exists one_file p
                                  \<and> check_class_definition one_file p c)
                        (core_files @ test_files @ data_files @ network_files)) = 1"
    by (simp add: core_files_def test_files_def data_files_def network_files_def one_file_def
        check_file_exists_def path_exists_def check_class_definition_def f_read_def
        class_pattern_def literal_def some_def opt_def isspace_def whitespace_chars_def)
  have combat: "filter (check_method_exists one_file ''Scripts/Core/CombatSystem.cs'')
                  combat_methods = []"
    by (simp add: combat_methods_def one_file_def check_method_exists_def path_exists_def)
  have projectile: "filter (check_method_exists one_file ''Scripts/Core/ProjectileManager.cs'')
                      projectile_methods = []"
    by (simp add: projectile_methods_def one_file_def check_method_exists_def path_exists_def)
  note run = missing_file_fails [where fs = one_file
        and filepath = "''Scripts/Data/PlayerData.cs''"
        and class_name = "''PlayerData''" and method_name = "''ExecuteAttack''"
        and before = "[]" and rest = "tl data_files" and n = 0 and methods = combat_methods,
        OF missing]
  have passed: "total_passed one_file = 1"
    using run files combat projectile by simp
  have "\<not> main one_file" "exit_code one_file = 1"
    using run passed by simp_all
  then show ?thesis
    using missing counted passed run by (simp add: data_files_def)
qed

section \<open>The deploy script: reading the files\<close>

lemmas text_eval = stripped_lines_def readlines_def strip_def isspace_def whitespace_chars_def
  py_int_def max_str_digits_def digit_string_def isdigit_def digit_value_def endswith_def
  suffix_to_prefix

lemma universal_newlines_chars: "set (universal_newlines s) \<subseteq> insert LF (set s)"
  by (induction s rule: universal_newlines.induct) auto

lemma concat_keepends: "concat (keepends s) = s"
  by (induction s) (auto split: list.splits)

lemma readlines_chars:
  assumes "l \<in> set (readlines raw)" and "c \<in> set l"
  shows "c = LF \<or> c \<in> set raw"
proof -
  have "c \<in> set (concat (readlines raw))" using assms by auto
  then have "c \<in> set (universal_newlines raw)" by (simp add: readlines_def concat_keepends)
  then show ?thesis using universal_newlines_chars [of raw] by auto
qed

lemma isspace_LF: "isspace LF"
  by (simp add: isspace_def whitespace_chars_def)

lemma strip_all_space:
  assumes "\<forall>c \<in> set l. isspace c"
  shows "strip l = []"
proof -
  have "dropWhile isspace l = []" using assms by (simp only: dropWhile_eq_Nil_conv)
  then show ?thesis unfolding strip_def by (simp only: rev.simps dropWhile.simps)
qed

lemma blank_text_no_lines:
  assumes "\<forall>c \<in> set raw. isspace c"
  shows "stripped_lines raw = []"
proof -
  have "strip l = []" if "l \<in> set (readlines raw)" for l
  proof (rule strip_all_space, rule ballI)
    fix c assume "c \<in> set l"
    with that have "c = LF \<or> c \<in> set raw" by (rule readlines_chars)
    then show "isspace c" using assms isspace_LF by auto
  qed
  then show ?thesis by (simp add: stripped_lines_def filter_empty_conv)
qed

lemma load_template_no_lines:
  "stripped_lines raw = [] \<Longrightarrow> load_template filename raw = Inr None"
  by (simp add: load_template_def)

lemma scan_maps_skip:
  "load_template filename raw = Inr None \<Longrightarrow>
   scan_maps (before @ (filename, Text raw) # rest) acc = scan_maps (before @ rest) acc"
proof (induction before arbitrary: acc)
  case Nil
  then show ?case by simp
next
  case (Cons x before)
  obtain f nd where x: "x = (f, nd)" by (cases x)
  show ?case using Cons
    by (simp add: x split: node.splits sum.splits option.splits)
qed

lemma load_square: "load_template ''m.csv'' square_csv = Inr (Some square_template)"
  by (simp add: load_template_def square_csv_def square_template_def text_eval)

lemma load_ragged: "load_template ''r.csv'' ragged_csv = Inr (Some ragged_template)"
  by (simp add: load_template_def ragged_csv_def ragged_template_def text_eval)

lemma load_bad: "load_template ''m.csv'' bad_csv = Inl (ValueError ''x'')"
  by (simp add: load_template_def bad_csv_def text_eval)

lemma csv_names:
  "endswith ''m.csv'' ''.csv''" "endswith ''r.csv'' ''.csv''" "endswith ''blank.csv'' ''.csv''"
  "\<not> endswith ''notes.txt'' ''.csv''" "\<not> endswith ''readme.md'' ''.csv''"
  by (simp_all add: endswith_def suffix_to_prefix)

text \<open>
  C9. A file whose name ends in \<^verbatim>\<open>.csv\<close> and whose text is white space only yields no
  template, and the scan of a directory, and the whole run, are what they are without
  the file.
\<close>

theorem blank_csv_skipped:
  assumes "endswith filename ''.csv''" and "\<forall>c \<in> set raw. isspace c"
  shows "load_template filename raw = Inr None
       \<and> scan_maps (before @ (filename, Text raw) # rest) acc = scan_maps (before @ rest) acc
       \<and> run_deploy (w\<lparr>maps_dir := Some (before @ (filename, Text raw) # rest)\<rparr>)
           = run_deploy (w\<lparr>maps_dir := Some (before @ rest)\<rparr>)"
proof -
  have none: "load_template filename raw = Inr None"
    using assms(2) by (simp add: blank_text_no_lines load_template_no_lines)
  have skip: "scan_maps (before @ (filename, Text raw) # rest) a = scan_maps (before @ rest) a" for a
    using none by (rule scan_maps_skip)
  show ?thesis using none skip
    by (simp add: run_deploy_def Let_def split: sum.splits completed.splits)
qed

theorem blank_csv_skipped_witness:
  "endswith ''blank.csv'' ''.csv'' \<and> list_all isspace blank_csv
   \<and> load_template ''blank.csv'' blank_csv = Inr None
   \<and> scan_maps [(''m.csv'', Text square_csv), (''blank.csv'', Text blank_csv),
                 (''r.csv'', Text ragged_csv)] []
       = Inr [square_template, ragged_template]
   \<and> scan_maps [(''m.csv'', Text square_csv), (''r.csv'', Text ragged_csv)] []
       = Inr [square_template, ragged_template]"
proof -
  have blank: "\<forall>c \<in> set blank_csv. isspace c"
    by (simp add: blank_csv_def isspace_def whitespace_chars_def)
  have "scan_maps [(''m.csv'', Text square_csv), (''r.csv'', Text ragged_csv)] []
          = Inr [square_template, ragged_template]"
    by (simp add: csv_names load_square load_ragged)
  then show ?thesis
    using blank csv_names(3)
      blank_csv_skipped [OF csv_names(3) blank, where before = "[(''m.csv'', Text square_csv)]"
        and rest = "[(''r.csv'', Text ragged_csv)]" and acc = "[]" and w = idle_world]
    by (simp add: list_all_iff)
qed

section \<open>The deploy script: the call of the client\<close>

lemma scan_maps_nothing:
  assumes "\<forall>(f, nd) \<in> set listing.
             endswith f ''.csv'' \<longrightarrow> (\<exists>raw. nd = Text raw \<and> stripped_lines raw = [])"
  shows "scan_maps listing acc = Inr acc"
  using assms
proof (induction listing)
  case Nil
  show ?case by simp
next
  case (Cons x listing)
  obtain f nd where x: "x = (f, nd)" by (cases x)
  show ?case
  proof (cases "endswith f ''.csv''")
    case True
    with Cons.prems x obtain raw where "nd = Text raw" "stripped_lines raw = []" by auto
    with Cons True x show ?thesis by (simp add: load_template_no_lines)
  next
    case False
    with Cons x show ?thesis by simp
  qed
qed

lemma load_template_None_iff:
  "load_template filename raw = Inr None \<longleftrightarrow> stripped_lines raw = []"
  by (simp add: load_template_def Let_def split: sum.splits)

lemma scan_maps_grows: "scan_maps listing acc = Inr ts \<Longrightarrow> length acc \<le> length ts"
proof (induction listing arbitrary: acc)
  case Nil
  then show ?case by simp
next
  case (Cons x listing)
  obtain f nd where x: "x = (f, nd)" by (cases x)
  from Cons.prems show ?case
    by (auto simp: x split: if_splits node.splits sum.splits option.splits dest!: Cons.IH)
qed

lemma scan_maps_same:
  "scan_maps listing acc = Inr acc \<Longrightarrow>
   \<forall>(f, nd) \<in> set listing.
     endswith f ''.csv'' \<longrightarrow> (\<exists>raw. nd = Text raw \<and> stripped_lines raw = [])"
proof (induction listing)
  case Nil
  show ?case by simp
next
  case (Cons x listing)
  obtain f nd where x: "x = (f, nd)" by (cases x)
  show ?case
  proof (cases "endswith f ''.csv''")
    case False
    with Cons x show ?thesis by simp
  next
    case True
    with Cons.prems x obtain raw where raw: "nd = Text raw" by (cases nd) auto
    show ?thesis
    proof (cases "load_template f raw")
      case (Inl e)
      with Cons.prems x True raw show ?thesis by simp
    next
      case (Inr r)
      show ?thesis
      proof (cases r)
        case None
        with Inr have "stripped_lines raw = []" by (simp add: load_template_None_iff)
        moreover from None Inr Cons.prems x True raw have "scan_maps listing acc = Inr acc"
          by simp
        ultimately show ?thesis using Cons.IH x raw by simp
      next
        case (Some t)
        with Inr Cons.prems x True raw have "scan_maps listing (acc @ [t]) = Inr acc" by simp
        from scan_maps_grows [OF this] show ?thesis by simp
      qed
    qed
  qed
qed

text \<open>
  C5, as the script has it. A directory whose only \<^verbatim>\<open>.csv\<close> file cannot be opened, or
  holds a token that is no integer, yields no template either, but the run does not
  print the warning and return: it ends with the uncaught exception, having printed
  nothing.
\<close>

theorem unusable_maps_no_warning:
  "scan_maps [(''locked.csv'', Unreadable)] [] = Inl (OSError ''locked.csv'')
   \<and> run_deploy locked_world = ([], Some (OSError ''locked.csv''))
   \<and> scan_maps [(''m.csv'', Text bad_csv)] [] = Inl (ValueError ''x'')
   \<and> run_deploy bad_world = ([], Some (ValueError ''x''))"
  by (simp add: run_deploy_def locked_world_def bad_world_def csv_names load_bad endswith_def
      suffix_to_prefix)

text \<open>
  C5, amended. The run prints the warning and returns, having collected no template,
  exactly when every \<^verbatim>\<open>.csv\<close> name of the maps directory opens and has no non-blank
  line (so also when the directory is empty); no command is run then. When the scan
  ends with an exception instead, that exception ends the run before anything is
  printed, and no command is run either.
\<close>

theorem no_maps_no_call:
  assumes "maps_dir w = Some listing"
  shows "(run_deploy w = ([Print_no_maps], None)
            \<longleftrightarrow> (\<forall>(f, nd) \<in> set listing.
                   endswith f ''.csv'' \<longrightarrow> (\<exists>raw. nd = Text raw \<and> stripped_lines raw = [])))
       \<and> ((\<forall>(f, nd) \<in> set listing.
               endswith f ''.csv'' \<longrightarrow> (\<exists>raw. nd = Text raw \<and> stripped_lines raw = []))
            \<longrightarrow> scan_maps listing [] = Inr [] \<and> filter is_run (fst (run_deploy w)) = [])
       \<and> (\<forall>e. scan_maps listing [] = Inl e \<longrightarrow> run_deploy w = ([], Some e))"
proof -
  let ?blank = "\<forall>(f, nd) \<in> set listing.
                  endswith f ''.csv'' \<longrightarrow> (\<exists>raw. nd = Text raw \<and> stripped_lines raw = [])"
  have a: "scan_maps listing [] = Inr []" if ?blank
    using scan_maps_nothing [OF that, of "[]"] .
  have b: ?blank if "scan_maps listing [] = Inr []"
    using scan_maps_same [OF that] .
  have c: "run_deploy w = ([Print_no_maps], None) \<longleftrightarrow> scan_maps listing [] = Inr []"
    using assms
    by (auto simp: run_deploy_def Let_def split: sum.splits completed.splits)
  have d: "run_deploy w = ([], Some e)" if "scan_maps listing [] = Inl e" for e
    using assms that by (simp add: run_deploy_def)
  have e: "filter is_run (fst (run_deploy w)) = []" if "scan_maps listing [] = Inr []"
    using assms that by (simp add: run_deploy_def)
  show ?thesis using a b c d e by blast
qed

theorem no_maps_no_call_witness:
  "stripped_lines blank_csv = []
   \<and> maps_dir idle_world = Some [(''readme.md'', Text ''maps''), (''blank.csv'', Text blank_csv)]
   \<and> run_deploy idle_world = ([Print_no_maps], None)
   \<and> filter is_run (fst (run_deploy idle_world)) = []
   \<and> maps_dir empty_world = Some []
   \<and> run_deploy empty_world = ([Print_no_maps], None)
   \<and> maps_dir bad_world = Some [(''m.csv'', Text bad_csv)]
   \<and> run_deploy bad_world \<noteq> ([Print_no_maps], None)"
proof -
  have blank: "stripped_lines blank_csv = []"
    by (simp add: blank_csv_def text_eval)
  have idle_dir: "maps_dir idle_world
                    = Some [(''readme.md'', Text ''maps''), (''blank.csv'', Text blank_csv)]"
    by (simp add: idle_world_def)
  have empty_dir: "maps_dir empty_world = Some []" by (simp add: empty_world_def)
  have bad_dir: "maps_dir bad_world = Some [(''m.csv'', Text bad_csv)]"
    by (simp add: bad_world_def)
  have idle: "\<forall>(f, nd) \<in> set [(''readme.md'', Text ''maps''), (''blank.csv'', Text blank_csv)].
                endswith f ''.csv'' \<longrightarrow> (\<exists>raw. nd = Text raw \<and> stripped_lines raw = [])"
    by (simp add: csv_names blank)
  have none: "\<forall>(f, nd) \<in> set ([] :: (string \<times> node) list).
                endswith f ''.csv'' \<longrightarrow> (\<exists>raw. nd = Text raw \<and> stripped_lines raw = [])"
    by simp
  have bad: "\<not> (\<forall>(f, nd) \<in> set [(''m.csv'', Text bad_csv)].
                endswith f ''.csv'' \<longrightarrow> (\<exists>raw. nd = Text raw \<and> stripped_lines raw = []))"
    by (simp add: csv_names bad_csv_def text_eval)
  have "run_deploy idle_world = ([Print_no_maps], None)"
    and "filter is_run (fst (run_deploy idle_world)) = []"
    using no_maps_no_call [OF idle_dir] idle by blast+
  moreover have "run_deploy empty_world = ([Print_no_maps], None)"
    using no_maps_no_call [OF empty_dir] none by blast
  moreover have "run_deploy bad_world \<noteq> ([Print_no_maps], None)"
    using no_maps_no_call [OF bad_dir] bad by blast
  ultimately show ?thesis using blank idle_dir empty_dir bad_dir by blast
qed

text \<open>
  C7. When the client is run and exits, it has been run once, whatever its return code;
  the run ends without an exception, and after a return code other than 0 the last thing
  printed is the failure line with the client's standard error.
\<close>

theorem client_called_once:
  assumes "maps_dir w = Some listing" and "scan_maps listing [] = Inr ts" and "ts \<noteq> []"
    and "spacetime w (deploy_command ts) = Exited returncode out err"
  shows "length (filter is_run (fst (run_deploy w))) = 1
       \<and> snd (run_deploy w) = None
       \<and> fst (run_deploy w) =
           [Print_sending (length ts), Run (deploy_command ts),
            if returncode = 0 then Print_success else Print_failure err]"
  using assms by (simp add: run_deploy_def Let_def)

lemma scan_square_world:
  "scan_maps [(''notes.txt'', Unreadable), (''m.csv'', Text square_csv)] [] = Inr [square_template]"
  by (simp add: csv_names load_square)

theorem client_called_once_witness:
  "maps_dir square_world = Some [(''notes.txt'', Unreadable), (''m.csv'', Text square_csv)]
   \<and> scan_maps [(''notes.txt'', Unreadable), (''m.csv'', Text square_csv)] [] = Inr [square_template]
   \<and> spacetime square_world (deploy_command [square_template])
       = Exited 1 [] ''connection refused''
   \<and> length (filter is_run (fst (run_deploy square_world))) = 1
   \<and> run_deploy square_world =
       ([Print_sending 1, Run (deploy_command [square_template]),
         Print_failure ''connection refused''], None)"
proof -
  have dir: "maps_dir square_world
               = Some [(''notes.txt'', Unreadable), (''m.csv'', Text square_csv)]"
    by (simp add: square_world_def)
  have client: "spacetime square_world (deploy_command [square_template])
                  = Exited 1 [] ''connection refused''"
    by (simp add: square_world_def refusing_def)
  show ?thesis
    using dir client scan_square_world
      client_called_once [OF dir scan_square_world _ client]
    by (simp add: prod_eq_iff)
qed

text \<open>
  C8. When at least one template was collected, exactly one command is run: the client
  \<^verbatim>\<open>spacetime call -s\<close> with the server URL, the database identity, the reducer
  \<^verbatim>\<open>replace_all_templates\<close> and, as its last argument, the JSON text of the list whose
  one element is the list of all templates.
\<close>

theorem client_command:
  assumes "maps_dir w = Some listing" and "scan_maps listing [] = Inr ts" and "ts \<noteq> []"
  shows "filter is_run (fst (run_deploy w)) =
           [Run [''spacetime'', ''call'', ''-s'', ''http://localhost:7734'', ''guildmaster'',
                 ''replace_all_templates'', json_dumps (PList [PList (map template_obj ts)])]]"
  using assms
  by (simp add: run_deploy_def Let_def deploy_command_def SERVER_URL_def DB_IDENTITY_def
      split: completed.splits)

lemma nat_repr_digit: "n < 10 \<Longrightarrow> nat_repr n = [''0123456789'' ! n]"
  by (simp add: nat_repr.simps [of n])

lemma square_payload:
  "json_dumps (PList [PList (map template_obj [square_template])]) =
     ''[[{'' @ [CHR 0x22] @ ''name'' @ [CHR 0x22] @ '': '' @ [CHR 0x22] @ ''m'' @ [CHR 0x22]
     @ '', '' @ [CHR 0x22] @ ''width'' @ [CHR 0x22] @ '': 2, ''
     @ [CHR 0x22] @ ''height'' @ [CHR 0x22] @ '': 2, ''
     @ [CHR 0x22] @ ''tile_data'' @ [CHR 0x22] @ '': [1, 2, 3, 4]}]]''"
  by (simp add: square_template_def template_obj_def json_str_def json_char_def int_repr_def
      nat_repr_digit)

theorem client_command_witness:
  "maps_dir square_world = Some [(''notes.txt'', Unreadable), (''m.csv'', Text square_csv)]
   \<and> scan_maps [(''notes.txt'', Unreadable), (''m.csv'', Text square_csv)] [] = Inr [square_template]
   \<and> filter is_run (fst (run_deploy square_world)) =
       [Run [''spacetime'', ''call'', ''-s'', ''http://localhost:7734'', ''guildmaster'',
             ''replace_all_templates'',
             ''[[{'' @ [CHR 0x22] @ ''name'' @ [CHR 0x22] @ '': '' @ [CHR 0x22] @ ''m''
             @ [CHR 0x22] @ '', '' @ [CHR 0x22] @ ''width'' @ [CHR 0x22] @ '': 2, ''
             @ [CHR 0x22] @ ''height'' @ [CHR 0x22] @ '': 2, ''
             @ [CHR 0x22] @ ''tile_data'' @ [CHR 0x22] @ '': [1, 2, 3, 4]}]]'']]"
proof -
  have dir: "maps_dir square_world
               = Some [(''notes.txt'', Unreadable), (''m.csv'', Text square_csv)]"
    by (simp add: square_world_def)
  show ?thesis
    using dir scan_square_world client_command [OF dir scan_square_world]
    by (simp only: square_payload) simp
qed

section \<open>The deploy script: malformed files\<close>

lemma int_tokens_bad:
  "t \<in> set ts \<Longrightarrow> strip t \<noteq> [] \<Longrightarrow> py_int (strip t) = None \<Longrightarrow>
   \<exists>bad. int_tokens ts = Inl (ValueError bad)"
proof (induction ts)
  case Nil
  then show ?case by simp
next
  case (Cons x ts)
  show ?case
  proof (cases "x = t")
    case True
    with Cons.prems show ?thesis by simp
  next
    case False
    with Cons have "\<exists>bad. int_tokens ts = Inl (ValueError bad)" by simp
    then show ?thesis by (auto split: option.splits)
  qed
qed

lemma int_tokens_error: "int_tokens ts = Inl e \<Longrightarrow> \<exists>bad. e = ValueError bad"
  by (induction ts arbitrary: e) (auto split: if_splits option.splits sum.splits)

lemma flatten_lines_bad:
  "l \<in> set lines \<Longrightarrow> t \<in> set (split_on (CHR '','') l) \<Longrightarrow> strip t \<noteq> [] \<Longrightarrow>
   py_int (strip t) = None \<Longrightarrow> \<exists>bad. flatten_lines lines acc = Inl (ValueError bad)"
proof (induction lines arbitrary: acc)
  case Nil
  then show ?case by simp
next
  case (Cons x lines)
  show ?case
  proof (cases "int_tokens (split_on (CHR '','') x)")
    case (Inl e)
    then obtain bad where "e = ValueError bad" using int_tokens_error by blast
    with Inl show ?thesis by simp
  next
    case (Inr vs)
    have "x \<noteq> l" using Inr int_tokens_bad [OF Cons.prems(2-4)] by auto
    then have "l \<in> set lines" using Cons.prems(1) by auto
    from Cons.IH [OF this Cons.prems(2-4)] Inr show ?thesis by simp
  qed
qed

lemma load_template_bad:
  assumes "l \<in> set (stripped_lines raw)" and "t \<in> set (split_on (CHR '','') l)"
    and "strip t \<noteq> []" and "py_int (strip t) = None"
  shows "\<exists>bad. load_template filename raw = Inl (ValueError bad)"
proof -
  obtain bad where "flatten_lines (stripped_lines raw) [] = Inl (ValueError bad)"
    using flatten_lines_bad [OF assms] by blast
  moreover have "stripped_lines raw \<noteq> []" using assms(1) by auto
  ultimately show ?thesis by (simp add: load_template_def Let_def)
qed

lemma scan_maps_raises:
  "endswith filename ''.csv'' \<Longrightarrow> load_template filename raw = Inl e \<Longrightarrow>
   \<exists>e'. scan_maps (before @ (filename, Text raw) # rest) acc = Inl e'"
proof (induction before arbitrary: acc)
  case Nil
  then show ?case by simp
next
  case (Cons x before)
  obtain f nd where x: "x = (f, nd)" by (cases x)
  show ?case using Cons
    by (simp add: x split: node.splits sum.splits option.splits)
qed

text \<open>
  C3, as the script has it. Rows of different lengths raise nothing: the file with the
  rows \<^verbatim>\<open>1,2\<close> and \<^verbatim>\<open>3\<close> yields a template of width 2, height 2 and three tiles, and
  the run goes on to call the client.
\<close>

theorem ragged_rows_accepted:
  "load_template ''r.csv'' ragged_csv
     = Inr (Some \<lparr>name = ''r'', width = 2, height = 2, tile_data = [1, 2, 3]\<rparr>)
   \<and> run_deploy ragged_world
     = ([Print_sending 1, Run (deploy_command [ragged_template]), Print_success], None)"
proof -
  have "run_deploy ragged_world
          = ([Print_sending 1, Run (deploy_command [ragged_template]), Print_success], None)"
    by (simp add: run_deploy_def ragged_world_def csv_names load_ragged accepting_def Let_def)
  then show ?thesis using load_ragged by (simp add: ragged_template_def)
qed

text \<open>
  C3, amended. A token that is not blank and that \<^verbatim>\<open>int\<close> rejects, anywhere on a
  non-blank line of a \<^verbatim>\<open>.csv\<close> file of the directory, makes the reading of that file
  raise \<^verbatim>\<open>ValueError\<close>, and the run end with an uncaught exception before anything is
  printed or called.
\<close>

theorem bad_token_raises:
  assumes "endswith filename ''.csv''"
    and "l \<in> set (stripped_lines raw)" and "t \<in> set (split_on (CHR '','') l)"
    and "strip t \<noteq> []" and "py_int (strip t) = None"
    and "maps_dir w = Some (before @ (filename, Text raw) # rest)"
  shows "(\<exists>bad. load_template filename raw = Inl (ValueError bad))
       \<and> (\<exists>e. run_deploy w = ([], Some e))"
proof -
  obtain bad where bad: "load_template filename raw = Inl (ValueError bad)"
    using load_template_bad [OF assms(2-5)] by blast
  obtain e where "scan_maps (before @ (filename, Text raw) # rest) [] = Inl e"
    using scan_maps_raises [OF assms(1) bad] by blast
  then have "run_deploy w = ([], Some e)" using assms(6) by (simp add: run_deploy_def)
  with bad show ?thesis by blast
qed

theorem bad_token_raises_witness:
  "endswith ''m.csv'' ''.csv''
   \<and> ''1,x'' \<in> set (stripped_lines bad_csv)
   \<and> ''x'' \<in> set (split_on (CHR '','') ''1,x'')
   \<and> strip ''x'' \<noteq> [] \<and> py_int (strip ''x'') = None
   \<and> maps_dir bad_world = Some ([] @ (''m.csv'', Text bad_csv) # [])
   \<and> load_template ''m.csv'' bad_csv = Inl (ValueError ''x'')
   \<and> run_deploy bad_world = ([], Some (ValueError ''x''))"
proof -
  have line: "''1,x'' \<in> set (stripped_lines bad_csv)"
    by (simp add: bad_csv_def text_eval)
  have token: "''x'' \<in> set (split_on (CHR '','') ''1,x'')" by simp
  have nonblank: "strip ''x'' \<noteq> []" by (simp add: text_eval)
  have rejected: "py_int (strip ''x'') = None" by (simp add: text_eval)
  have dir: "maps_dir bad_world = Some ([] @ (''m.csv'', Text bad_csv) # [])"
    by (simp add: bad_world_def)
  have run: "run_deploy bad_world = ([], Some (ValueError ''x''))"
    by (simp add: run_deploy_def bad_world_def csv_names load_bad)
  show ?thesis
    using bad_token_raises [OF csv_names(1) line token nonblank rejected dir]
      line token nonblank rejected dir run csv_names(1) load_bad
    by simp
qed

section \<open>The deploy script: width, height and the number of tiles\<close>

lemma int_tokens_length:
  "int_tokens ts = Inr vs \<Longrightarrow> length vs = length (filter (\<lambda>t. strip t \<noteq> []) ts)"
  by (induction ts arbitrary: vs) (auto split: if_splits option.splits sum.splits)

lemma flatten_lines_length:
  "flatten_lines lines acc = Inr tiles \<Longrightarrow>
   length tiles = length acc
     + sum_list (map (\<lambda>l. length (filter (\<lambda>t. strip t \<noteq> []) (split_on (CHR '','') l))) lines)"
  by (induction lines arbitrary: acc) (auto split: sum.splits dest: int_tokens_length)

lemma sum_list_const: "\<forall>x \<in> set xs. f x = (k::nat) \<Longrightarrow> sum_list (map f xs) = length xs * k"
  by (induction xs) auto

lemma load_template_rectangular:
  assumes "load_template filename raw = Inr (Some t)" and "rectangular raw"
  shows "width t * height t = length (tile_data t)"
proof -
  let ?lines = "stripped_lines raw"
  let ?count = "\<lambda>l. length (filter (\<lambda>t. strip t \<noteq> []) (split_on (CHR '','') l))"
  from assms(1) obtain tiles where tiles: "flatten_lines ?lines [] = Inr tiles"
    and t: "t = \<lparr>name = replace_all ''.csv'' [] filename,
                 width = length (split_on (CHR '','') (hd ?lines)),
                 height = length ?lines, tile_data = tiles\<rparr>"
    by (auto simp: load_template_def Let_def split: if_splits sum.splits)
  have "\<forall>l \<in> set ?lines. ?count l = length (split_on (CHR '','') (hd ?lines))"
    using assms(2) by (simp add: rectangular_def Let_def list_all_iff)
  then have "sum_list (map ?count ?lines)
               = length ?lines * length (split_on (CHR '','') (hd ?lines))"
    by (rule sum_list_const)
  with flatten_lines_length [OF tiles] t show ?thesis by (simp add: mult.commute)
qed

lemma scan_maps_rectangular:
  assumes "scan_maps listing acc = Inr ts"
    and "\<forall>(f, nd) \<in> set listing.
           \<forall>raw. endswith f ''.csv'' \<longrightarrow> nd = Text raw \<longrightarrow> rectangular raw"
    and "\<forall>t \<in> set acc. width t * height t = length (tile_data t)"
  shows "\<forall>t \<in> set ts. width t * height t = length (tile_data t)"
  using assms
proof (induction listing arbitrary: acc)
  case Nil
  then show ?case by simp
next
  case (Cons x listing)
  obtain f nd where x: "x = (f, nd)" by (cases x)
  have rest: "\<forall>(f, nd) \<in> set listing.
                \<forall>raw. endswith f ''.csv'' \<longrightarrow> nd = Text raw \<longrightarrow> rectangular raw"
    using Cons.prems(2) by simp
  show ?case
  proof (cases "endswith f ''.csv''")
    case False
    with Cons.prems(1) x have "scan_maps listing acc = Inr ts" by simp
    from Cons.IH [OF this rest Cons.prems(3)] show ?thesis .
  next
    case True
    with Cons.prems(1) x obtain raw where raw: "nd = Text raw"
      by (cases nd) auto
    with Cons.prems(2) x True have rect: "rectangular raw" by simp
    show ?thesis
    proof (cases "load_template f raw")
      case (Inl e)
      with Cons.prems(1) x True raw show ?thesis by simp
    next
      case (Inr r)
      show ?thesis
      proof (cases r)
        case None
        with Cons.prems(1) x True raw Inr have "scan_maps listing acc = Inr ts" by simp
        from Cons.IH [OF this rest Cons.prems(3)] show ?thesis .
      next
        case (Some t)
        with Cons.prems(1) x True raw Inr have step: "scan_maps listing (acc @ [t]) = Inr ts"
          by simp
        have "width t * height t = length (tile_data t)"
          using load_template_rectangular Inr Some rect by blast
        with Cons.prems(3)
        have "\<forall>t \<in> set (acc @ [t]). width t * height t = length (tile_data t)"
          by simp
        from Cons.IH [OF step rest this] show ?thesis .
      qed
    qed
  qed
qed

text \<open>
  C4, as the script has it. The directory with the one file of rows \<^verbatim>\<open>1,2\<close> and \<^verbatim>\<open>3\<close>
  is accepted without an exception, and its template has width 2, height 2 and three
  tiles.
\<close>

theorem ragged_template_counts:
  "scan_maps [(''r.csv'', Text ragged_csv)] [] = Inr [ragged_template]
   \<and> snd (run_deploy ragged_world) = None
   \<and> width ragged_template * height ragged_template = 4
   \<and> length (tile_data ragged_template) = 3"
  by (simp add: run_deploy_def ragged_world_def csv_names load_ragged accepting_def Let_def
      ragged_template_def)

text \<open>
  C4, amended. When every \<^verbatim>\<open>.csv\<close> file of the directory that opens is rectangular,
  every template the scan collects has width times height equal to the number of its
  tiles.
\<close>

theorem rectangular_templates:
  assumes "scan_maps listing [] = Inr ts"
    and "\<forall>(f, nd) \<in> set listing.
           \<forall>raw. endswith f ''.csv'' \<longrightarrow> nd = Text raw \<longrightarrow> rectangular raw"
  shows "\<forall>t \<in> set ts. width t * height t = length (tile_data t)"
  using scan_maps_rectangular [OF assms] by simp

theorem rectangular_templates_witness:
  "scan_maps [(''notes.txt'', Unreadable), (''m.csv'', Text square_csv)] [] = Inr [square_template]
   \<and> rectangular square_csv
   \<and> width square_template * height square_template = length (tile_data square_template)
   \<and> \<not> rectangular ragged_csv"
proof -
  have square: "rectangular square_csv"
    by (simp add: rectangular_def square_csv_def text_eval)
  have ragged: "\<not> rectangular ragged_csv"
    by (simp add: rectangular_def ragged_csv_def text_eval)
  have all: "\<forall>(f, nd) \<in> set [(''notes.txt'', Unreadable), (''m.csv'', Text square_csv)].
               \<forall>raw. endswith f ''.csv'' \<longrightarrow> nd = Text raw \<longrightarrow> rectangular raw"
    by (simp add: csv_names square)
  show ?thesis
    using rectangular_templates [OF scan_square_world all] scan_square_world square ragged
    by simp
qed

section \<open>The deploy script: rows of integers\<close>

lemma universal_newlines_id: "CR \<notin> set s \<Longrightarrow> universal_newlines s = s"
  by (induction s rule: universal_newlines.induct) auto

lemma keepends_line: "LF \<notin> set l \<Longrightarrow> keepends (l @ LF # s) = (l @ [LF]) # keepends s"
  by (induction l) auto

lemma keepends_last: "LF \<notin> set l \<Longrightarrow> l \<noteq> [] \<Longrightarrow> keepends l = [l]"
proof (induction l)
  case Nil
  then show ?case by simp
next
  case (Cons c l)
  then show ?case by (cases l) auto
qed

lemma keepends_lines:
  "\<forall>l \<in> set ls. LF \<notin> set l \<Longrightarrow> LF \<notin> set e \<Longrightarrow>
   keepends (concat (map (\<lambda>l. l @ [LF]) ls) @ e)
     = map (\<lambda>l. l @ [LF]) ls @ (if e = [] then [] else [e])"
proof (induction ls)
  case Nil
  then show ?case by (simp add: keepends_last)
next
  case (Cons l ls)
  then show ?case by (simp add: keepends_line)
qed

lemma strip_id:
  assumes "l \<noteq> []" and "\<forall>c \<in> set l. \<not> isspace c"
  shows "strip l = l"
proof -
  have "\<not> isspace (hd l)" using assms by simp
  then have front: "dropWhile isspace l = l" by (simp add: dropWhile_eq_self_iff)
  have "\<not> isspace (last l)" using assms by simp
  then have "\<not> isspace (hd (rev l))" using assms(1) by (simp add: hd_rev)
  then have rear: "dropWhile isspace (rev l) = rev l" by (simp add: dropWhile_eq_self_iff)
  show ?thesis unfolding strip_def by (simp only: front rear rev_rev_ident)
qed

lemma split_on_nonempty: "split_on sep s \<noteq> []"
  by (induction s) (auto split: list.splits)

lemma split_on_single: "sep \<notin> set t \<Longrightarrow> split_on sep t = [t]"
  by (induction t) auto

lemma split_on_field: "sep \<notin> set t \<Longrightarrow> split_on sep (t @ sep # s) = t # split_on sep s"
  by (induction t) auto

lemma split_on_join:
  "ts \<noteq> [] \<Longrightarrow> \<forall>t \<in> set ts. sep \<notin> set t \<Longrightarrow> split_on sep (join [sep] ts) = ts"
proof (induction "[sep]" ts rule: join.induct)
  case 1
  then show ?case by simp
next
  case (2 x)
  then show ?case by (simp add: split_on_single)
next
  case (3 x y ys)
  then show ?case by (simp add: split_on_field)
qed

lemma digits_tail_decimal:
  "list_all isdigit ds \<Longrightarrow>
   digits_tail acc ds = Some (foldl (\<lambda>a d. 10 * a + digit_value d) acc ds)"
  by (induction ds arbitrary: acc) auto

lemma digit_string_decimal:
  "ds \<noteq> [] \<Longrightarrow> list_all isdigit ds \<Longrightarrow> digit_string ds = Some (decimal ds)"
  by (cases ds) (auto simp: digit_string_def decimal_def digits_tail_decimal)

lemma isdigit_chars: "isdigit c \<Longrightarrow> \<not> isspace c \<and> c \<noteq> CHR '','' \<and> c \<noteq> LF \<and> c \<noteq> CR
   \<and> c \<noteq> CHR ''-'' \<and> c \<noteq> CHR ''+''"
  by (auto simp: isdigit_def isspace_def whitespace_chars_def)

lemma sign_chars:
  "c = CHR ''-'' \<or> c = CHR ''+'' \<Longrightarrow>
   \<not> isspace c \<and> c \<noteq> CHR '','' \<and> c \<noteq> LF \<and> c \<noteq> CR"
  by (auto simp: isspace_def whitespace_chars_def)

lemma int_literal_chars:
  assumes "int_literal t" and "c \<in> set t"
  shows "\<not> isspace c \<and> c \<noteq> CHR '','' \<and> c \<noteq> LF \<and> c \<noteq> CR"
proof -
  obtain d ds where t: "t = d # ds" using assms(2) by (cases t) auto
  have "isdigit c \<or> c = CHR ''-'' \<or> c = CHR ''+''"
  proof (cases "d = CHR ''-'' \<or> d = CHR ''+''")
    case True
    with assms(1) t have "list_all isdigit ds" by (simp add: int_literal_def)
    with assms(2) t True show ?thesis by (auto simp: list_all_iff)
  next
    case False
    with assms(1) t have "list_all isdigit (d # ds)" by (simp add: int_literal_def)
    with assms(2) t show ?thesis by (auto simp: list_all_iff)
  qed
  then show ?thesis using isdigit_chars [of c] sign_chars [of c] by blast
qed

lemma int_literal_nonempty: "int_literal t \<Longrightarrow> t \<noteq> []"
  by (auto simp: int_literal_def)

lemma int_literal_strip: "int_literal t \<Longrightarrow> strip t = t"
  using int_literal_chars int_literal_nonempty strip_id by blast

lemma int_literal_digits: "int_literal t \<Longrightarrow> length (filter isdigit t) \<le> max_str_digits"
proof -
  assume lit: "int_literal t"
  then obtain c cs where t: "t = c # cs" by (cases t) (auto simp: int_literal_def)
  show ?thesis
  proof (cases "c = CHR ''-'' \<or> c = CHR ''+''")
    case True
    with lit t have "list_all isdigit cs" "length cs \<le> max_str_digits"
      by (simp_all add: int_literal_def)
    moreover from this have "filter isdigit cs = cs" by (simp add: list_all_iff)
    moreover have "\<not> isdigit c" using True by (auto simp: isdigit_def)
    ultimately show ?thesis by (simp add: t)
  next
    case False
    with lit t have "list_all isdigit (c # cs)" "length (c # cs) \<le> max_str_digits"
      by (simp_all add: int_literal_def)
    moreover from this have "filter isdigit (c # cs) = c # cs"
      by (simp only: filter_id_conv list_all_iff) 
    ultimately show ?thesis by (simp only: t)
  qed
qed

lemma py_int_literal:
  assumes "int_literal t"
  shows "py_int t = Some (literal_value t)"
proof -
  obtain c cs where t: "t = c # cs" using assms int_literal_nonempty by (cases t) auto
  have s: "strip (c # cs) = c # cs" using assms int_literal_strip t by simp
  have cap: "\<not> max_str_digits < length (filter isdigit (c # cs))"
    using int_literal_digits [OF assms] t by simp
  show ?thesis
  proof (cases "c = CHR ''-'' \<or> c = CHR ''+''")
    case True
    with assms t have "cs \<noteq> []" "list_all isdigit cs" by (simp_all add: int_literal_def)
    then have "digit_string cs = Some (decimal cs)" by (rule digit_string_decimal)
    with True show ?thesis unfolding t py_int_def literal_value_def s using cap by auto
  next
    case False
    with assms t have "list_all isdigit (c # cs)" by (simp add: int_literal_def)
    then have "digit_string (c # cs) = Some (decimal (c # cs))"
      by (rule digit_string_decimal [rotated]) simp
    with False show ?thesis unfolding t py_int_def literal_value_def s using cap by simp
  qed
qed

lemma int_tokens_fields:
  "\<forall>t \<in> set ts. int_literal (strip t) \<Longrightarrow>
   int_tokens ts = Inr (map (\<lambda>t. literal_value (strip t)) ts)"
proof (induction ts)
  case Nil
  show ?case by simp
next
  case (Cons t ts)
  then have "int_literal (strip t)" by simp
  then have "strip t \<noteq> []" "py_int (strip t) = Some (literal_value (strip t))"
    by (simp_all add: int_literal_nonempty py_int_literal)
  with Cons show ?case by simp
qed

lemma flatten_lines_fields:
  "\<forall>l \<in> set lines. \<forall>t \<in> set (split_on (CHR '','') l). int_literal (strip t) \<Longrightarrow>
   flatten_lines lines acc
     = Inr (acc @ concat (map (\<lambda>l. map (\<lambda>t. literal_value (strip t)) (split_on (CHR '','') l)) lines))"
proof (induction lines arbitrary: acc)
  case Nil
  show ?case by simp
next
  case (Cons l lines)
  then have "int_tokens (split_on (CHR '','') l)
               = Inr (map (\<lambda>t. literal_value (strip t)) (split_on (CHR '','') l))"
    by (intro int_tokens_fields) simp
  with Cons show ?case by simp
qed

lemma concat_nth_grid:
  "\<forall>xs \<in> set xss. length xs = C \<Longrightarrow> r < length xss \<Longrightarrow> c < C \<Longrightarrow>
   concat xss ! (r * C + c) = xss ! r ! c"
proof (induction xss arbitrary: r)
  case Nil
  then show ?case by simp
next
  case (Cons xs xss)
  show ?case
  proof (cases r)
    case 0
    with Cons.prems show ?thesis by (simp add: nth_append)
  next
    case (Suc r')
    with Cons.prems have "concat xss ! (r' * C + c) = xss ! r' ! c"
      by (intro Cons.IH) auto
    with Cons.prems Suc show ?thesis by (simp add: nth_append)
  qed
qed

lemma length_concat_grid: "\<forall>xs \<in> set xss. length xs = C \<Longrightarrow> length (concat xss) = length xss * C"
  by (induction xss) auto

lemma isspace_CR: "isspace CR"
  by (simp add: isspace_def whitespace_chars_def)

lemma strip_line:
  assumes "l \<noteq> []" and "\<forall>c \<in> set l. \<not> isspace c"
  shows "strip (l @ [LF]) = l"
proof -
  have "\<not> isspace (hd (l @ [LF]))" using assms by simp
  then have front: "dropWhile isspace (l @ [LF]) = l @ [LF]"
    by (simp add: dropWhile_eq_self_iff)
  have "\<not> isspace (last l)" using assms by simp
  then have "\<not> isspace (hd (rev l))" using assms(1) by (simp add: hd_rev)
  then have "dropWhile isspace (rev l) = rev l" by (simp add: dropWhile_eq_self_iff)
  then have rear: "dropWhile isspace (rev (l @ [LF])) = rev l" by (simp add: isspace_LF)
  show ?thesis unfolding strip_def by (simp only: front rear rev_rev_ident)
qed

lemma strip_terminated_lines:
  "\<forall>l \<in> set ls. l \<noteq> [] \<and> (\<forall>c \<in> set l. \<not> isspace c) \<Longrightarrow>
   map strip (filter (\<lambda>l. strip l \<noteq> []) (map (\<lambda>l. l @ [LF]) ls)) = ls"
  by (induction ls) (auto simp: strip_line)

lemma stripped_lines_clean:
  assumes ls: "\<forall>l \<in> set ls. l \<noteq> [] \<and> (\<forall>c \<in> set l. \<not> isspace c)"
    and e: "\<forall>c \<in> set e. \<not> isspace c"
  shows "stripped_lines (concat (map (\<lambda>l. l @ [LF]) ls) @ e) = ls @ (if e = [] then [] else [e])"
proof -
  let ?raw = "concat (map (\<lambda>l. l @ [LF]) ls) @ e"
  have "CR \<notin> set ?raw" using ls e isspace_CR by auto
  then have "readlines ?raw = keepends ?raw" by (simp add: readlines_def universal_newlines_id)
  moreover have noLF: "\<forall>l \<in> set ls. LF \<notin> set l" and "LF \<notin> set e"
    using ls e isspace_LF by auto
  then have "keepends ?raw = map (\<lambda>l. l @ [LF]) ls @ (if e = [] then [] else [e])"
    by (rule keepends_lines)
  ultimately have lines: "readlines ?raw = map (\<lambda>l. l @ [LF]) ls @ (if e = [] then [] else [e])"
    by simp
  show ?thesis
  proof (cases "e = []")
    case True
    with lines ls show ?thesis by (simp add: stripped_lines_def strip_terminated_lines)
  next
    case False
    with e have "strip e = e" by (simp add: strip_id)
    with False lines ls show ?thesis by (simp add: stripped_lines_def strip_terminated_lines)
  qed
qed

lemma join_chars: "set (join sep ts) \<subseteq> set sep \<union> \<Union> (set ` set ts)"
  by (induction sep ts rule: join.induct) auto

lemma join_nonempty: "ts \<noteq> [] \<Longrightarrow> \<forall>t \<in> set ts. t \<noteq> [] \<Longrightarrow> join sep ts \<noteq> []"
  by (induction sep ts rule: join.induct) auto

lemma comma_not_space: "\<not> isspace (CHR '','')"
  by (simp add: isspace_def whitespace_chars_def)

lemma row_line_clean:
  assumes "row \<noteq> []" and "\<forall>t \<in> set row. int_literal t"
  shows "join '','' row \<noteq> [] \<and> (\<forall>c \<in> set (join '','' row). \<not> isspace c)"
proof
  show "join '','' row \<noteq> []"
    using assms int_literal_nonempty by (intro join_nonempty) auto
  show "\<forall>c \<in> set (join '','' row). \<not> isspace c"
  proof
    fix c assume "c \<in> set (join '','' row)"
    then have "c = CHR '','' \<or> (\<exists>t \<in> set row. c \<in> set t)"
      using join_chars [of "'',''" row] by auto
    then show "\<not> isspace c"
      using assms(2) int_literal_chars comma_not_space by blast
  qed
qed

lemma csv_text_lines:
  assumes "rows \<noteq> []" and "\<forall>row \<in> set rows. row \<noteq> [] \<and> (\<forall>t \<in> set row. int_literal t)"
    and "raw = csv_text rows \<or> raw = butlast (csv_text rows)"
  shows "stripped_lines raw = map (join '','') rows"
proof -
  let ?ls = "map (join '','') rows"
  have clean: "\<forall>l \<in> set ?ls. l \<noteq> [] \<and> (\<forall>c \<in> set l. \<not> isspace c)"
    using assms(2) row_line_clean by auto
  have shape: "csv_text rows = concat (map (\<lambda>l. l @ [LF]) ?ls)"
    by (simp add: csv_text_def comp_def)
  from assms(3) show ?thesis
  proof
    assume "raw = csv_text rows"
    with shape stripped_lines_clean [OF clean, of "[]"] show ?thesis by simp
  next
    assume raw: "raw = butlast (csv_text rows)"
    have "?ls \<noteq> []" using assms(1) by simp
    then have split: "?ls = butlast ?ls @ [last ?ls]" by simp
    have "csv_text rows = concat (map (\<lambda>l. l @ [LF]) (butlast ?ls)) @ last ?ls @ [LF]"
      by (subst shape, subst split) simp
    then have raw': "raw = concat (map (\<lambda>l. l @ [LF]) (butlast ?ls)) @ last ?ls"
      using raw by (simp add: butlast_append)
    have c1: "\<forall>l \<in> set (butlast ?ls). l \<noteq> [] \<and> (\<forall>c \<in> set l. \<not> isspace c)"
      using clean by (meson in_set_butlastD)
    have c2: "last ?ls \<noteq> [] \<and> (\<forall>c \<in> set (last ?ls). \<not> isspace c)"
      using clean \<open>?ls \<noteq> []\<close> last_in_set by blast
    from stripped_lines_clean [OF c1, of "last ?ls"] c2 raw' split show ?thesis by simp
  qed
qed

lemma csv_text_rows:
  assumes "rows \<noteq> []"
    and "\<forall>row \<in> set rows. row \<noteq> [] \<and> (\<forall>t \<in> set row. int_literal t)"
    and "raw = csv_text rows \<or> raw = butlast (csv_text rows)"
  shows "csv_rows raw = rows"
proof -
  have "map strip (split_on (CHR '','') (join '','' row)) = row" if "row \<in> set rows" for row
  proof -
    have row: "row \<noteq> []" "\<forall>t \<in> set row. int_literal t" using assms(2) that by auto
    then have "\<forall>t \<in> set row. CHR '','' \<notin> set t" using int_literal_chars by blast
    with row(1) have "split_on (CHR '','') (join '','' row) = row" by (rule split_on_join)
    moreover have "map strip row = row" using row(2) int_literal_strip by (simp add: map_idI)
    ultimately show ?thesis by simp
  qed
  then have "map (\<lambda>row. map strip (split_on (CHR '','') (join '','' row))) rows = rows"
    by (simp add: map_idI)
  then show ?thesis
    using csv_text_lines [OF assms] by (simp add: csv_rows_def comp_def)
qed

lemma py_int_too_long:
  assumes "max_str_digits < length ds" and "list_all isdigit ds"
  shows "py_int ds = None"
proof -
  have clean: "\<forall>c \<in> set ds. \<not> isspace c"
    using assms(2) isdigit_chars by (auto simp: list_all_iff)
  have "ds \<noteq> []" using assms(1) by auto
  then have "strip ds = ds" using clean by (rule strip_id)
  moreover have "filter isdigit ds = ds" using assms(2) by (simp add: list_all_iff)
  ultimately show ?thesis using assms(1) by (simp add: py_int_def)
qed

lemma csv_rows_tiles:
  "concat (map (\<lambda>l. map (\<lambda>t. literal_value (strip t)) (split_on (CHR '','') l)) (stripped_lines raw))
     = concat (map (map literal_value) (csv_rows raw))"
  by (simp add: csv_rows_def comp_def)

text \<open>
  C2. Take the rows of a file as \<open>csv_rows\<close> gives them: its non-blank lines in order
  (whatever the line ends, and with blank lines between them or not), each cut at its
  commas, each token without the white space around it. When there are R of them (R at
  least 1) and each holds exactly C integer tokens, the template has width C, height R
  and as tile sequence the integers of the file row by row: R times C tiles, the one at
  \<open>r * C + c\<close> being the integer of row \<open>r\<close>, column \<open>c\<close>. For a name ending in
  \<^verbatim>\<open>.csv\<close> it is the template the scan of the directory appends. (By \<open>csv_text_rows\<close>
  the file written from a grid of tokens has that grid as its rows.)
\<close>

theorem csv_grid_template:
  assumes "csv_rows raw \<noteq> []"
    and "\<forall>row \<in> set (csv_rows raw). length row = C \<and> (\<forall>t \<in> set row. int_literal t)"
    and "endswith filename ''.csv''"
  shows "load_template filename raw
           = Inr (Some \<lparr>name = replace_all ''.csv'' [] filename, width = C,
                        height = length (csv_rows raw),
                        tile_data = concat (map (map literal_value) (csv_rows raw))\<rparr>)
       \<and> scan_maps [(filename, Text raw)] []
           = Inr [\<lparr>name = replace_all ''.csv'' [] filename, width = C,
                   height = length (csv_rows raw),
                   tile_data = concat (map (map literal_value) (csv_rows raw))\<rparr>]
       \<and> length (concat (map (map literal_value) (csv_rows raw))) = length (csv_rows raw) * C
       \<and> (\<forall>r < length (csv_rows raw). \<forall>c < C.
             concat (map (map literal_value) (csv_rows raw)) ! (r * C + c)
               = literal_value (csv_rows raw ! r ! c))"
proof -
  let ?lines = "stripped_lines raw"
  have nonempty: "?lines \<noteq> []" using assms(1) by (simp add: csv_rows_def)
  have fields: "\<forall>l \<in> set ?lines. \<forall>t \<in> set (split_on (CHR '','') l). int_literal (strip t)"
    using assms(2) by (simp add: csv_rows_def)
  have "hd ?lines \<in> set ?lines" using nonempty by simp
  then have "map strip (split_on (CHR '','') (hd ?lines)) \<in> set (csv_rows raw)"
    by (simp add: csv_rows_def)
  then have w: "length (split_on (CHR '','') (hd ?lines)) = C" using assms(2) by fastforce
  have tiles: "flatten_lines ?lines [] = Inr (concat (map (map literal_value) (csv_rows raw)))"
    using flatten_lines_fields [OF fields, of "[]"] by (simp add: csv_rows_tiles)
  have h: "length ?lines = length (csv_rows raw)" by (simp add: csv_rows_def)
  have load: "load_template filename raw
           = Inr (Some \<lparr>name = replace_all ''.csv'' [] filename, width = C,
                        height = length (csv_rows raw),
                        tile_data = concat (map (map literal_value) (csv_rows raw))\<rparr>)"
    using nonempty w tiles h by (simp add: load_template_def Let_def)
  have scan: "scan_maps [(filename, Text raw)] []
           = Inr [\<lparr>name = replace_all ''.csv'' [] filename, width = C,
                   height = length (csv_rows raw),
                   tile_data = concat (map (map literal_value) (csv_rows raw))\<rparr>]"
    using load assms(3) by simp
  have grid: "\<forall>xs \<in> set (map (map literal_value) (csv_rows raw)). length xs = C"
    using assms(2) by simp
  have len: "length (concat (map (map literal_value) (csv_rows raw))) = length (csv_rows raw) * C"
    using length_concat_grid [OF grid] by simp
  have nth: "concat (map (map literal_value) (csv_rows raw)) ! (r * C + c)
               = literal_value (csv_rows raw ! r ! c)"
    if "r < length (csv_rows raw)" "c < C" for r c
  proof -
    have "concat (map (map literal_value) (csv_rows raw)) ! (r * C + c)
            = map (map literal_value) (csv_rows raw) ! r ! c"
      using that by (intro concat_nth_grid [OF grid]) simp_all
    moreover have "length (csv_rows raw ! r) = C" using assms(2) that(1) by simp
    ultimately show ?thesis using that by simp
  qed
  show ?thesis using load scan len nth by blast
qed

theorem csv_grid_template_witness:
  "csv_rows wide_csv = wide_rows
   \<and> list_all (\<lambda>row. length row = 3 \<and> list_all int_literal row) wide_rows
   \<and> endswith ''wide.csv'' ''.csv''
   \<and> load_template ''wide.csv'' wide_csv
       = Inr (Some \<lparr>name = ''wide'', width = 3, height = 2, tile_data = [10, - 2, 7, 3, 4, 5]\<rparr>)
   \<and> scan_maps [(''wide.csv'', Text wide_csv)] []
       = Inr [\<lparr>name = ''wide'', width = 3, height = 2, tile_data = [10, - 2, 7, 3, 4, 5]\<rparr>]
   \<and> [10, - 2, 7, 3, 4, 5] ! (1 * 3 + 1) = literal_value (wide_rows ! 1 ! 1)
   \<and> literal_value (wide_rows ! 1 ! 1) = 4"
proof -
  have rows: "csv_rows wide_csv = wide_rows"
    by (simp add: csv_rows_def wide_csv_def wide_rows_def text_eval)
  have tokens: "\<forall>row \<in> set wide_rows. length row = 3 \<and> (\<forall>t \<in> set row. int_literal t)"
    by (simp add: wide_rows_def int_literal_def isdigit_def max_str_digits_def)
  have wide_name: "endswith ''wide.csv'' ''.csv''"
    by (simp add: endswith_def suffix_to_prefix)
  have tiles: "concat (map (map literal_value) wide_rows) = [10, - 2, 7, 3, 4, 5]"
    by (simp add: wide_rows_def literal_value_def decimal_def digit_value_def)
  have cell: "literal_value (wide_rows ! 1 ! 1) = 4"
    by (simp add: wide_rows_def literal_value_def decimal_def digit_value_def)
  have nonempty: "csv_rows wide_csv \<noteq> []" by (simp add: rows wide_rows_def)
  have count: "length wide_rows = 2" by (simp add: wide_rows_def)
  have stem: "replace_all ''.csv'' [] ''wide.csv'' = ''wide''" by simp
  note grid = csv_grid_template [OF nonempty tokens [folded rows] wide_name,
      unfolded rows tiles count stem]
  have cells: "\<forall>r<2. \<forall>c<3. [10, - 2, 7, 3, 4, 5] ! (r * 3 + c) = literal_value (wide_rows ! r ! c)"
    using grid by simp
  have at_1_1: "[10, - 2, 7, 3, 4, 5] ! (1 * 3 + 1) = literal_value (wide_rows ! 1 ! 1)"
    using cells [rule_format, of 1 1] by simp
  have "list_all (\<lambda>row. length row = 3 \<and> list_all int_literal row) wide_rows"
    using tokens by (simp add: list_all_iff)
  moreover have "load_template ''wide.csv'' wide_csv
       = Inr (Some \<lparr>name = ''wide'', width = 3, height = 2, tile_data = [10, - 2, 7, 3, 4, 5]\<rparr>)"
    using grid by simp
  moreover have "scan_maps [(''wide.csv'', Text wide_csv)] []
       = Inr [\<lparr>name = ''wide'', width = 3, height = 2, tile_data = [10, - 2, 7, 3, 4, 5]\<rparr>]"
    using grid by simp
  ultimately show ?thesis
    using rows wide_name cell at_1_1 by blast
qed

section \<open>The validator: what a pattern matches\<close>

inductive_cases matches_FailE: "matches Fail w"
inductive_cases matches_EpsE: "matches Eps w"
inductive_cases matches_SymE: "matches (Sym a) w"
inductive_cases matches_AltE: "matches (Alt r s) w"
inductive_cases matches_SeqE: "matches (Seq r s) w"

lemma matches_Fail [simp]: "\<not> matches Fail w"
  by (auto elim: matches_FailE)

lemma matches_Eps [simp]: "matches Eps w \<longleftrightarrow> w = []"
  by (auto elim: matches_EpsE intro: m_eps)

lemma matches_Sym [simp]: "matches (Sym a) w \<longleftrightarrow> (\<exists>c. w = [c] \<and> accepts a c)"
  by (auto elim: matches_SymE intro: m_sym)

lemma matches_Alt [simp]: "matches (Alt r s) w \<longleftrightarrow> matches r w \<or> matches s w"
  by (auto elim: matches_AltE intro: m_alt1 m_alt2)

lemma matches_Seq: "matches (Seq r s) w \<longleftrightarrow> (\<exists>u v. w = u @ v \<and> matches r u \<and> matches s v)"
proof
  assume "matches (Seq r s) w"
  then show "\<exists>u v. w = u @ v \<and> matches r u \<and> matches s v"
    by (rule matches_SeqE) blast
next
  assume "\<exists>u v. w = u @ v \<and> matches r u \<and> matches s v"
  then show "matches (Seq r s) w" by (auto intro: m_seq)
qed

lemma star_split:
  "matches q w \<Longrightarrow> q = Star r \<Longrightarrow> w = c # x \<Longrightarrow>
   \<exists>u v. x = u @ v \<and> matches r (c # u) \<and> matches (Star r) v"
proof (induction q w arbitrary: c x rule: matches.induct)
  case (m_star1 r' u v)
  show ?case
  proof (cases u)
    case Nil
    with m_star1 show ?thesis by simp
  next
    case (Cons a u')
    with m_star1.prems m_star1.hyps show ?thesis by auto
  qed
qed simp_all

lemma nullable_matches: "nullable r \<longleftrightarrow> matches r []"
proof (induction r)
  case (Seq r s)
  then show ?case by (auto simp: matches_Seq)
next
  case (Star r)
  show ?case by (simp add: m_star0)
qed simp_all

lemma deriv_matches: "matches (deriv c r) w \<longleftrightarrow> matches r (c # w)"
proof (induction r arbitrary: w)
  case (Seq r s)
  show ?case
  proof
    assume "matches (deriv c (Seq r s)) w"
    then consider (left) "matches (Seq (deriv c r) s) w" | (right) "nullable r" "matches (deriv c s) w"
      by (auto split: if_splits)
    then show "matches (Seq r s) (c # w)"
    proof cases
      case left
      then obtain u v where "w = u @ v" "matches (deriv c r) u" "matches s v"
        by (auto simp: matches_Seq)
      then have "matches r (c # u)" "c # w = (c # u) @ v" using Seq.IH(1) by auto
      with \<open>matches s v\<close> show ?thesis by (metis m_seq)
    next
      case right
      then have "matches r []" "matches s (c # w)"
        using Seq.IH(2) by (auto simp: nullable_matches)
      then have "matches (Seq r s) ([] @ c # w)" by (rule m_seq)
      then show ?thesis by simp
    qed
  next
    assume "matches (Seq r s) (c # w)"
    then obtain u v where uv: "c # w = u @ v" "matches r u" "matches s v"
      by (auto simp: matches_Seq)
    show "matches (deriv c (Seq r s)) w"
    proof (cases u)
      case Nil
      with uv have "nullable r" "matches (deriv c s) w"
        using Seq.IH(2) by (auto simp: nullable_matches)
      then show ?thesis by simp
    next
      case (Cons a u')
      with uv have "matches (deriv c r) u'" "w = u' @ v"
        using Seq.IH(1) by auto
      with uv(3) have "matches (Seq (deriv c r) s) w" by (auto simp: matches_Seq)
      then show ?thesis by simp
    qed
  qed
next
  case (Star r)
  show ?case
  proof
    assume "matches (deriv c (Star r)) w"
    then obtain u v where "w = u @ v" "matches (deriv c r) u" "matches (Star r) v"
      by (auto simp: matches_Seq)
    then have "matches r (c # u)" "c # w = (c # u) @ v" using Star.IH by auto
    with \<open>matches (Star r) v\<close> show "matches (Star r) (c # w)" by (metis m_star1)
  next
    assume "matches (Star r) (c # w)"
    from star_split [OF this refl refl]
    obtain u v where "w = u @ v" "matches r (c # u)" "matches (Star r) v" by blast
    then show "matches (deriv c (Star r)) w"
      using Star.IH by (auto simp: matches_Seq)
  qed
qed auto

lemma match_here_iff: "match_here r s \<longleftrightarrow> (\<exists>p q. s = p @ q \<and> matches r p)"
proof (induction s arbitrary: r)
  case Nil
  show ?case by (simp add: nullable_matches)
next
  case (Cons c cs)
  show ?case
  proof
    assume "match_here r (c # cs)"
    then consider "matches r []" | "match_here (deriv c r) cs"
      by (auto simp: nullable_matches)
    then show "\<exists>p q. c # cs = p @ q \<and> matches r p"
    proof cases
      case 1
      then show ?thesis by (metis append_Nil)
    next
      case 2
      then obtain p q where "cs = p @ q" "matches r (c # p)"
        using Cons.IH deriv_matches by blast
      then show ?thesis by (metis append_Cons)
    qed
  next
    assume "\<exists>p q. c # cs = p @ q \<and> matches r p"
    then obtain p q where pq: "c # cs = p @ q" "matches r p" by blast
    show "match_here r (c # cs)"
    proof (cases p)
      case Nil
      with pq have "nullable r" by (simp add: nullable_matches)
      then show ?thesis by simp
    next
      case (Cons a p')
      with pq have "cs = p' @ q" "matches (deriv c r) p'" by (auto simp: deriv_matches)
      then have "match_here (deriv c r) cs" using Cons.IH by blast
      then show ?thesis by simp
    qed
  qed
qed

lemma re_search_iff: "re_search r s \<longleftrightarrow> (\<exists>a p b. s = a @ p @ b \<and> matches r p)"
proof (induction s)
  case Nil
  show ?case by (simp add: nullable_matches)
next
  case (Cons c cs)
  show ?case
  proof
    assume "re_search r (c # cs)"
    then consider "match_here r (c # cs)" | "re_search r cs" by auto
    then show "\<exists>a p b. c # cs = a @ p @ b \<and> matches r p"
    proof cases
      case 1
      then obtain p q where "c # cs = p @ q" "matches r p" by (auto simp: match_here_iff)
      then have "c # cs = [] @ p @ q" by simp
      with \<open>matches r p\<close> show ?thesis by blast
    next
      case 2
      then obtain a p b where "cs = a @ p @ b" "matches r p" using Cons.IH by blast
      then have "c # cs = (c # a) @ p @ b" by simp
      with \<open>matches r p\<close> show ?thesis by blast
    qed
  next
    assume "\<exists>a p b. c # cs = a @ p @ b \<and> matches r p"
    then obtain a p b where apb: "c # cs = a @ p @ b" "matches r p" by blast
    show "re_search r (c # cs)"
    proof (cases a)
      case Nil
      with apb have "match_here r (c # cs)" by (auto simp: match_here_iff)
      then show ?thesis by simp
    next
      case (Cons x a')
      with apb have "cs = a' @ p @ b" by simp
      with apb(2) have "re_search r cs" using Cons.IH by blast
      then show ?thesis by simp
    qed
  qed
qed

lemma literal_Cons: "literal (c # s) = Seq (Sym (Lit c)) (literal s)"
  by (simp add: literal_def)

lemma matches_literal: "matches (literal s) w \<longleftrightarrow> w = s"
proof (induction s arbitrary: w)
  case Nil
  show ?case by (simp add: literal_def)
next
  case (Cons c s)
  show ?case by (auto simp: literal_Cons matches_Seq Cons.IH)
qed

lemma star_sym_all:
  "matches q w \<Longrightarrow> q = Star (Sym a) \<Longrightarrow> list_all (accepts a) w"
  by (induction q w rule: matches.induct) auto

lemma all_star_sym: "list_all (accepts a) w \<Longrightarrow> matches (Star (Sym a)) w"
proof (induction w)
  case Nil
  show ?case by (rule m_star0)
next
  case (Cons c w)
  then have "matches (Sym a) [c]" "matches (Star (Sym a)) w" by auto
  then have "matches (Star (Sym a)) ([c] @ w)" by (rule m_star1)
  then show ?case by simp
qed

lemma matches_star_space: "matches (Star (Sym Whitespace)) w \<longleftrightarrow> list_all isspace w"
proof -
  have "list_all (accepts Whitespace) w = list_all isspace w" by (simp add: list_all_iff)
  then show ?thesis using star_sym_all [of "Star (Sym Whitespace)" w Whitespace] all_star_sym [of Whitespace w]
    by blast
qed

lemma matches_some_space: "matches (some (Sym Whitespace)) w \<longleftrightarrow> blank w"
proof
  assume "matches (some (Sym Whitespace)) w"
  then obtain u v where "w = u @ v" "matches (Sym Whitespace) u" "matches (Star (Sym Whitespace)) v"
    unfolding some_def matches_Seq by blast
  then show "blank w" by (auto simp: blank_def matches_star_space)
next
  assume "blank w"
  then obtain c v where "w = [c] @ v" "isspace c" "list_all isspace v"
    by (cases w) (auto simp: blank_def)
  then have "matches (Sym Whitespace) [c]" "matches (Star (Sym Whitespace)) v" "w = [c] @ v"
    by (simp_all add: matches_star_space)
  then show "matches (some (Sym Whitespace)) w"
    unfolding some_def using m_seq by blast
qed

lemma matches_literal_then:
  "matches (Seq (literal s) r) w \<longleftrightarrow> (\<exists>v. w = s @ v \<and> matches r v)"
  by (auto simp: matches_Seq matches_literal)

lemma matches_space_then:
  "matches (Seq (some (Sym Whitespace)) r) w \<longleftrightarrow> (\<exists>u v. w = u @ v \<and> blank u \<and> matches r v)"
  by (auto simp: matches_Seq matches_some_space)

lemma matches_opt: "matches (opt r) w \<longleftrightarrow> matches r w \<or> w = []"
  by (simp add: opt_def)

lemmas pattern_simps = matches_literal_then matches_space_then matches_some_space
  matches_literal matches_opt matches_Seq

lemma matches_seqs: "list_all2 matches rs ws \<Longrightarrow> matches (seqs rs) (concat ws)"
  by (induction rule: list_all2_induct) (auto intro: m_seq m_eps)

lemma keyword_declaration:
  assumes "blank ws1" and "blank ws2"
  shows "matches (seqs [literal ''public'', some (Sym Whitespace), literal kw,
                        some (Sym Whitespace), literal nm])
           (''public'' @ ws1 @ kw @ ws2 @ nm)"
proof -
  have "matches (seqs [literal ''public'', some (Sym Whitespace), literal kw,
                       some (Sym Whitespace), literal nm])
          (concat [''public'', ws1, kw, ws2, nm])"
    using assms by (intro matches_seqs) (simp add: matches_literal matches_some_space)
  then show ?thesis by simp
qed

lemma matches_interface_pattern:
  "matches (interface_pattern nm) d \<longleftrightarrow>
     (\<exists>ws1 ws2. blank ws1 \<and> blank ws2 \<and> d = ''public'' @ ws1 @ ''interface'' @ ws2 @ nm)"
proof
  assume "matches (interface_pattern nm) d"
  then show "\<exists>ws1 ws2. blank ws1 \<and> blank ws2 \<and> d = ''public'' @ ws1 @ ''interface'' @ ws2 @ nm"
    unfolding interface_pattern_def by (auto simp: pattern_simps)
next
  assume "\<exists>ws1 ws2. blank ws1 \<and> blank ws2 \<and> d = ''public'' @ ws1 @ ''interface'' @ ws2 @ nm"
  then show "matches (interface_pattern nm) d"
    unfolding interface_pattern_def using keyword_declaration by blast
qed

lemma matches_struct_pattern:
  "matches (struct_pattern nm) d \<longleftrightarrow>
     (\<exists>ws1 ws2. blank ws1 \<and> blank ws2 \<and> d = ''public'' @ ws1 @ ''struct'' @ ws2 @ nm)"
proof
  assume "matches (struct_pattern nm) d"
  then show "\<exists>ws1 ws2. blank ws1 \<and> blank ws2 \<and> d = ''public'' @ ws1 @ ''struct'' @ ws2 @ nm"
    unfolding struct_pattern_def by (auto simp: pattern_simps)
next
  assume "\<exists>ws1 ws2. blank ws1 \<and> blank ws2 \<and> d = ''public'' @ ws1 @ ''struct'' @ ws2 @ nm"
  then show "matches (struct_pattern nm) d"
    unfolding struct_pattern_def using keyword_declaration by blast
qed

lemma class_declaration:
  assumes "blank ws1" and "blank ws2" and "p = [] \<or> (\<exists>ws3. blank ws3 \<and> p = ''partial'' @ ws3)"
  shows "matches (class_pattern nm) (''public'' @ ws1 @ p @ ''class'' @ ws2 @ nm)"
proof -
  have "matches (opt (seqs [literal ''partial'', some (Sym Whitespace)])) p"
  proof (cases "p = []")
    case True
    then show ?thesis by (simp add: matches_opt)
  next
    case False
    with assms(3) obtain ws3 where ws3: "blank ws3" "p = ''partial'' @ ws3" by blast
    then have "matches (seqs [literal ''partial'', some (Sym Whitespace)]) (concat [''partial'', ws3])"
      by (intro matches_seqs) (simp add: matches_literal matches_some_space)
    with ws3 show ?thesis by (simp add: matches_opt)
  qed
  with assms(1,2) have "matches (class_pattern nm) (concat [''public'', ws1, p, ''class'', ws2, nm])"
    unfolding class_pattern_def
    by (intro matches_seqs) (simp add: matches_literal matches_some_space)
  then show ?thesis by simp
qed

lemma matches_class_pattern:
  "matches (class_pattern nm) d \<longleftrightarrow>
     (\<exists>ws1 ws2. blank ws1 \<and> blank ws2 \<and>
        (d = ''public'' @ ws1 @ ''class'' @ ws2 @ nm
         \<or> (\<exists>ws3. blank ws3 \<and> d = ''public'' @ ws1 @ ''partial'' @ ws3 @ ''class'' @ ws2 @ nm)))"
  (is "?L \<longleftrightarrow> ?R")
proof
  assume ?L
  then obtain v0 where v0: "d = ''public'' @ v0"
    and "matches (seqs [some (Sym Whitespace),
           opt (seqs [literal ''partial'', some (Sym Whitespace)]),
           literal ''class'', some (Sym Whitespace), literal nm]) v0"
    unfolding class_pattern_def by (auto simp: matches_literal_then)
  then obtain ws1 v1 where v1: "v0 = ws1 @ v1" "blank ws1"
    and "matches (seqs [opt (seqs [literal ''partial'', some (Sym Whitespace)]),
           literal ''class'', some (Sym Whitespace), literal nm]) v1"
    by (auto simp: matches_space_then)
  then have "matches (Seq (opt (seqs [literal ''partial'', some (Sym Whitespace)]))
           (seqs [literal ''class'', some (Sym Whitespace), literal nm])) v1"
    by simp
  then obtain p v2 where v2: "v1 = p @ v2"
    and "matches (opt (seqs [literal ''partial'', some (Sym Whitespace)])) p"
    and rest: "matches (seqs [literal ''class'', some (Sym Whitespace), literal nm]) v2"
    by (rule matches_SeqE)
  then have p: "matches (seqs [literal ''partial'', some (Sym Whitespace)]) p \<or> p = []"
    by (simp add: matches_opt)
  from rest obtain ws2 where ws2: "blank ws2" "v2 = ''class'' @ ws2 @ nm"
    by (auto simp: pattern_simps)
  from p show ?R
  proof
    assume "p = []"
    with v0 v1 v2 ws2 have "d = ''public'' @ ws1 @ ''class'' @ ws2 @ nm" by simp
    with v1(2) ws2(1) show ?R by blast
  next
    assume "matches (seqs [literal ''partial'', some (Sym Whitespace)]) p"
    then obtain ws3 where "blank ws3" "p = ''partial'' @ ws3"
      by (auto simp: pattern_simps)
    with v0 v1 v2 ws2
    have "blank ws3 \<and> d = ''public'' @ ws1 @ ''partial'' @ ws3 @ ''class'' @ ws2 @ nm" by simp
    with v1(2) ws2(1) show ?R by blast
  qed
next
  assume ?R
  then obtain ws1 ws2 where ws: "blank ws1" "blank ws2"
    and d: "d = ''public'' @ ws1 @ ''class'' @ ws2 @ nm
         \<or> (\<exists>ws3. blank ws3 \<and> d = ''public'' @ ws1 @ ''partial'' @ ws3 @ ''class'' @ ws2 @ nm)"
    by blast
  from d show ?L
  proof
    assume "d = ''public'' @ ws1 @ ''class'' @ ws2 @ nm"
    then show ?L using class_declaration [OF ws, of "[]" nm] by simp
  next
    assume "\<exists>ws3. blank ws3 \<and> d = ''public'' @ ws1 @ ''partial'' @ ws3 @ ''class'' @ ws2 @ nm"
    then obtain ws3 where "blank ws3" "d = ''public'' @ ws1 @ ''partial'' @ ws3 @ ''class'' @ ws2 @ nm"
      by blast
    then show ?L using class_declaration [OF ws, of "''partial'' @ ws3" nm] by auto
  qed
qed

lemma public_declaration_iff:
  "public_declaration nm d \<longleftrightarrow>
     matches (class_pattern nm) d \<or> matches (interface_pattern nm) d
     \<or> matches (struct_pattern nm) d"
  unfolding public_declaration_def matches_class_pattern matches_interface_pattern
    matches_struct_pattern
  by blast

lemma class_check_text:
  assumes "fs p = Text raw"
  shows "check_class_definition fs p nm = declares_public nm (f_read raw)"
proof -
  have "declares_public nm (f_read raw) \<longleftrightarrow>
          re_search (class_pattern nm) (f_read raw)
          \<or> re_search (interface_pattern nm) (f_read raw)
          \<or> re_search (struct_pattern nm) (f_read raw)"
    unfolding declares_public_def public_declaration_iff re_search_iff by blast
  then show ?thesis using assms
    by (simp add: check_class_definition_def path_exists_def Let_def)
qed

section \<open>The validator: the symbol check\<close>

lemma declares_public_sublist:
  assumes "declares_public nm content"
  shows "sublist ''public'' content"
proof -
  from assms obtain pre d post where c: "content = pre @ d @ post" and "public_declaration nm d"
    unfolding declares_public_def by blast
  then obtain rest where "d = ''public'' @ rest"
    unfolding public_declaration_def by auto
  with c have "content = pre @ ''public'' @ (rest @ post)" by simp
  then show ?thesis unfolding sublist_def by blast
qed

text \<open>
  What the symbol check decides. For a name of letters, digits and underscores, it is
  true exactly when the path holds text in which the words of a public declaration
  occur: \<^verbatim>\<open>public\<close>, white space, then \<^verbatim>\<open>class\<close> (with or without \<^verbatim>\<open>partial\<close> and
  white space before it), \<^verbatim>\<open>interface\<close> or \<^verbatim>\<open>struct\<close>, white space, and the characters
  of the name. Nothing is asked of what follows those characters. A text in which the
  word \<^verbatim>\<open>public\<close> does not occur fails the check, whatever else it declares.
\<close>

theorem class_check_public_only:
  assumes "is_identifier cn"
  shows "(check_class_definition fs filepath cn
            \<longleftrightarrow> (\<exists>raw. fs filepath = Text raw \<and> declares_public cn (f_read raw)))
       \<and> (\<forall>raw. fs filepath = Text raw \<and> \<not> sublist ''public'' (f_read raw)
             \<longrightarrow> \<not> check_class_definition fs filepath cn)"
proof (cases "fs filepath")
  case Missing
  then show ?thesis by (simp add: check_class_definition_def path_exists_def)
next
  case Unreadable
  then show ?thesis by (simp add: check_class_definition_def path_exists_def)
next
  case Undecodable
  then show ?thesis by (simp add: check_class_definition_def path_exists_def)
next
  case (Text raw)
  then show ?thesis
    using class_check_text [of fs filepath raw cn] declares_public_sublist [of cn "f_read raw"]
    by auto
qed

lemmas pattern_eval = check_class_definition_def path_exists_def f_read_def class_pattern_def
  interface_pattern_def struct_pattern_def literal_def some_def opt_def isspace_def
  whitespace_chars_def

theorem class_check_public_only_witness:
  "is_identifier ''MapData''
   \<and> check_class_definition sources ''A.cs'' ''MapData''
   \<and> declares_public ''MapData'' (''public partial class MapData'' @ [LF] @ ''{ }'')
   \<and> \<not> check_class_definition sources ''B.cs'' ''MapData''
   \<and> \<not> check_class_definition sources ''C.cs'' ''MapData''
   \<and> check_class_definition sources ''D.cs'' ''MapData''
   \<and> \<not> check_class_definition sources ''E.cs'' ''MapData''
   \<and> \<not> check_class_definition sources ''F.cs'' ''MapData''"
proof -
  have ident: "is_identifier ''MapData''" by (simp add: is_identifier_def)
  have a: "check_class_definition sources ''A.cs'' ''MapData''"
    by (simp add: sources_def pattern_eval)
  have "sources ''A.cs'' = Text (''public partial class MapData'' @ [CR, LF] @ ''{ }'')"
    by (simp add: sources_def)
  with a class_check_public_only [OF ident, of sources "''A.cs''"]
  have "declares_public ''MapData'' (f_read (''public partial class MapData'' @ [CR, LF] @ ''{ }''))"
    by simp
  then have decl: "declares_public ''MapData'' (''public partial class MapData'' @ [LF] @ ''{ }'')"
    by (simp add: f_read_def)
  have others: "\<not> check_class_definition sources ''B.cs'' ''MapData''"
    "\<not> check_class_definition sources ''C.cs'' ''MapData''"
    "check_class_definition sources ''D.cs'' ''MapData''"
    "\<not> check_class_definition sources ''E.cs'' ''MapData''"
    "\<not> check_class_definition sources ''F.cs'' ''MapData''"
    by (simp_all add: sources_def pattern_eval)
  show ?thesis using ident a decl others by simp
qed

text \<open>
  C10, on the code. The file declares \<^verbatim>\<open>MapData\<close> only as \<^verbatim>\<open>internal\<close>; its one public
  declaration is of another class, \<^verbatim>\<open>MapDataView\<close>. The check for \<^verbatim>\<open>MapData\<close> returns
  true all the same: the pattern ends with the name and asks for no word boundary after
  it, so it matches the first characters of \<^verbatim>\<open>public class MapDataView\<close>. Without that
  second class the check is false.
\<close>

theorem longer_name_accepted:
  "is_identifier ''MapData''
   \<and> check_class_definition shadowed ''Scripts/Data/MapData.cs'' ''MapData''
   \<and> \<not> check_class_definition shadowed ''Scripts/Data/Internal.cs'' ''MapData''"
  by (simp add: shadowed_def is_identifier_def pattern_eval)

end
